theory Spec2Isabelle
  imports Main
begin

section \<open>The per-connection request pipeline of server::net::Connection\<close>

text \<open>
  A shallow embedding of \<^verbatim>\<open>core/src/server/net/connection.cpp\<close>. The connection object
  is a record that every member function takes and returns; each call the source makes
  into a collaborator whose result the connection cannot decide (the socket, the parser,
  the handler task, the response) takes that result as an argument. Calls made on the
  outside world are appended to \<open>trace\<close> in program order.
\<close>

subsection \<open>Data model\<close>

text \<open>
  \<^verbatim>\<open>ex.Code().value()\<close> is a raw errno. The two values the source compares against
  are the POSIX numbers of \<^verbatim>\<open>std::errc::connection_reset\<close> (ECONNRESET) and
  \<^verbatim>\<open>std::errc::broken_pipe\<close> (EPIPE) on Linux.
\<close>

type_synonym errno = int

definition connection_reset :: errno where
  "connection_reset = 104"

definition broken_pipe :: errno where
  "broken_pipe = 32"

datatype Level = kTrace | kDebug | kWarning | kError

text \<open>What the connection does to the outside world, in the order it does it.\<close>

datatype event =
    LOG Level
  | RequestCancel
  | SocketClose
  | StatsClosed
  | CloseCb
  | TasksEmptyChecked
  | Detach
  | TaskSyncCancel nat
  | WriteAccessLogs nat

text \<open>
  \<^verbatim>\<open>UASSERT\<close> (utils/assert.hpp) is taken with its checking behaviour: a failed
  assertion ends the program, which the model returns as a value.
\<close>

datatype assertion = SenderTaskValid | RequestTasksEmpty | ResponseNotSent

text \<open>
  The Stats structure is declared elsewhere in the repository; its counters are modelled
  as unbounded integers, so that a decrement is always the inverse of an increment.
\<close>

record Stats =
  active_connections :: int
  connections_created :: int
  connections_closed :: int
  active_request_count :: int
  requests_processed_count :: int

record ConnectionConfig =
  in_buffer_size :: nat
  requests_queue_size_threshold :: nat

text \<open>
  Modelled from the spec: request::RequestBase and its response are declared elsewhere
  in the repository. A request carries \<open>is_final\<close> and a response slot that is initially
  empty; \<open>send(socket)\<close> writes and marks sent, \<open>set_send_failed\<close> records the unsent
  status. \<open>req_id\<close> is the identity of the object (the position of the request in the
  order the parser produced it).
\<close>

record request =
  req_id :: nat
  is_final :: bool
  internal_server_error :: bool
  is_sent :: bool
  send_failed :: bool

definition new_request :: "nat \<Rightarrow> bool \<Rightarrow> request" where
  "new_request n final =
     \<lparr>req_id = n, is_final = final, internal_server_error = False,
      is_sent = False, send_failed = False\<rparr>"

text \<open>
  The connection object. \<open>request_tasks\<close> is the content of the queue, oldest first.
  \<open>peer_socket_valid\<close> is what \<^verbatim>\<open>peer_socket_\<close> converts to in a condition.
  \<open>sender_cancel_requested\<close> is the cancellation flag of \<^verbatim>\<open>response_sender_task_\<close>,
  which \<^verbatim>\<open>engine::current_task::IsCancelRequested()\<close> reads inside that task.
  Three fields are history only and steer nothing: \<open>parsed\<close> counts the requests the
  parser has delivered, \<open>pushed\<close> lists the requests in the order Push accepted them,
  \<open>finished\<close> lists the requests in the order the sender's loop was done with them
  (SendResponse returned, or an exception ended the turn), each as it was then.
\<close>

record connection =
  config :: ConnectionConfig
  stats :: Stats
  peer_socket_valid :: bool
  request_tasks :: "request list"
  max_length :: nat
  is_accepting_requests :: bool
  is_response_chain_valid :: bool
  close_cb :: bool
  close_cb_calls :: nat
  sender_task_valid :: bool
  sender_cancel_requested :: bool
  trace :: "event list"
  parsed :: nat
  pushed :: "request list"
  finished :: "request list"

definition emit :: "event \<Rightarrow> connection \<Rightarrow> connection" where
  "emit e c = c\<lparr>trace := trace c @ [e]\<rparr>"

subsection \<open>What the collaborators answer\<close>

text \<open>
  One \<^verbatim>\<open>RecvSome\<close> call: bytes arrived (and \<^verbatim>\<open>request_parser.Parse\<close> then delivers
  the listed requests to its sink, one pair per request: is it final, and does
  \<^verbatim>\<open>producer.Push\<close> accept it; the flag after the list is what Parse returns), the
  peer closed (0 bytes), or the call threw.
\<close>

datatype recv_result =
    Received "(bool \<times> bool) list" bool
  | PeerClosed
  | ThrowIoCancelled
  | ThrowIoSystemError errno
  | ThrowStdException

text \<open>What \<^verbatim>\<open>request_task.Get()\<close> does in HandleQueueItem.\<close>

datatype task_result =
    TaskDone
  | TaskCancelledException
  | WaitInterruptedException
  | TaskStdException

text \<open>What \<^verbatim>\<open>response.SendResponse(peer_socket_)\<close> does in SendResponse.\<close>

datatype send_result =
    Sent
  | SendIoSystemError errno
  | SendStdException

text \<open>How the body of ListenForRequests is left.\<close>

datatype reader_exit =
    LoopEnd
  | Return
  | CaughtIoCancelled
  | CaughtIoSystemError errno
  | CaughtStdException

subsection \<open>Construction, SetCloseCb, Stop\<close>

definition Connection :: "ConnectionConfig \<Rightarrow> Stats \<Rightarrow> connection" where
  "Connection cfg st =
     \<lparr>config = cfg,
      stats = st\<lparr>active_connections := active_connections st + 1,
                 connections_created := connections_created st + 1\<rparr>,
      peer_socket_valid = True,
      request_tasks = [],
      max_length = 0,
      is_accepting_requests = True,
      is_response_chain_valid = True,
      close_cb = False,
      close_cb_calls = 0,
      sender_task_valid = False,
      sender_cancel_requested = False,
      trace = [LOG kDebug],
      parsed = 0,
      pushed = [],
      finished = []\<rparr>"

definition SetCloseCb :: "connection \<Rightarrow> connection" where
  "SetCloseCb c = c\<lparr>close_cb := True\<rparr>"

definition Stop :: "connection \<Rightarrow> connection" where
  "Stop c = emit RequestCancel (c\<lparr>sender_cancel_requested := True\<rparr>)"

subsection \<open>The reader: NewRequest and ListenForRequests\<close>

text \<open>
  Modelled from the spec: the queue (Queue::Producer, Queue::Consumer) is declared
  elsewhere in the repository. It is the spec's single-producer/single-consumer FIFO:
  an accepted item goes to the back, Pop takes the front, and Pop finds nothing only
  when the queue is empty. Whether Push accepts the item is the caller's argument.
\<close>

definition Push :: "bool \<Rightarrow> request \<Rightarrow> connection \<Rightarrow> bool \<times> connection" where
  "Push accepted r c =
     (if accepted
      then (True, c\<lparr>request_tasks := request_tasks c @ [r], pushed := pushed c @ [r]\<rparr>)
      else (False, c))"

definition Pop :: "connection \<Rightarrow> (request \<times> connection) option" where
  "Pop c =
     (case request_tasks c of
        [] \<Rightarrow> None
      | item # rest \<Rightarrow> Some (item, c\<lparr>request_tasks := rest\<rparr>))"

definition NewRequest :: "request \<Rightarrow> bool \<Rightarrow> connection \<Rightarrow> bool \<times> connection" where
  "NewRequest request_ptr accepted c =
     (if \<not> is_accepting_requests c then (True, c)
      else
        let c1 = (if is_final request_ptr then c\<lparr>is_accepting_requests := False\<rparr> else c);
            c2 = c1\<lparr>stats := (stats c1)\<lparr>active_request_count :=
                     active_request_count (stats c1) + 1\<rparr>\<rparr>
        in Push accepted request_ptr c2)"

text \<open>
  The sink the parser calls for every complete request (the lambda handed to
  HttpRequestParser). The parser makes a fresh request object for each call.
\<close>

definition sink :: "bool \<Rightarrow> bool \<Rightarrow> connection \<Rightarrow> connection" where
  "sink final accepted c =
     (let request_ptr = new_request (parsed c) final;
          (ok, c1) = NewRequest request_ptr accepted (c\<lparr>parsed := parsed c + 1\<rparr>)
      in if \<not> ok then c1\<lparr>is_accepting_requests := False\<rparr> else c1)"

fun Parse :: "(bool \<times> bool) list \<Rightarrow> connection \<Rightarrow> connection" where
  "Parse [] c = c"
| "Parse ((final, accepted) # rs) c = Parse rs (sink final accepted c)"

text \<open>
  What the loop does once \<^verbatim>\<open>request_parser.Parse\<close> has returned: malformed input
  stops the accepting of requests.
\<close>

definition parse_returned :: "bool \<Rightarrow> connection \<Rightarrow> connection" where
  "parse_returned parse_ok c =
     (if \<not> parse_ok then (emit (LOG kDebug) c)\<lparr>is_accepting_requests := False\<rparr> else c)"

text \<open>
  The \<^verbatim>\<open>send_stopper\<close> scope guard's callback; \<open>launched\<close> is what
  \<^verbatim>\<open>response_sender_launched_event_.WaitForEvent()\<close> returns. The guard of
  utils/scope_guard.hpp runs its callback when it is destroyed, unless
  \<^verbatim>\<open>Release()\<close> has dropped the callback before.
\<close>

definition send_stopper :: "bool \<Rightarrow> connection \<Rightarrow> connection" where
  "send_stopper launched c =
     (if launched then emit RequestCancel (c\<lparr>sender_cancel_requested := True\<rparr>) else c)"

text \<open>
  The \<^verbatim>\<open>while (is_accepting_requests_)\<close> loop over the answers of successive
  \<^verbatim>\<open>RecvSome\<close> calls. \<open>None\<close>: the answers ran out while the loop was still
  receiving, so the reader has not returned. The exceptions are those of the receive;
  the allocation of the buffer, the parser and the sink are taken to return.
\<close>

fun listen_loop :: "recv_result list \<Rightarrow> connection \<Rightarrow> (reader_exit \<times> connection) option" where
  "listen_loop [] c = (if \<not> is_accepting_requests c then Some (LoopEnd, c) else None)"
| "listen_loop (r # rest) c =
     (if \<not> is_accepting_requests c then Some (LoopEnd, c)
      else case r of
        PeerClosed \<Rightarrow> Some (Return, emit (LOG kTrace) c)
      | ThrowIoCancelled \<Rightarrow> Some (CaughtIoCancelled, c)
      | ThrowIoSystemError e \<Rightarrow> Some (CaughtIoSystemError e, c)
      | ThrowStdException \<Rightarrow> Some (CaughtStdException, c)
      | Received rs parse_ok \<Rightarrow>
          listen_loop rest (parse_returned parse_ok (Parse rs (emit (LOG kTrace) c))))"

text \<open>
  How each way out of the try block ends. Leaving the loop releases the guard; a
  \<^verbatim>\<open>return\<close> or an exception destroys it, and on an exception that happens
  during unwinding, before the handler logs.
\<close>

fun leave :: "bool \<Rightarrow> reader_exit \<Rightarrow> connection \<Rightarrow> connection" where
  "leave launched LoopEnd c = emit (LOG kTrace) c"
| "leave launched Return c = send_stopper launched c"
| "leave launched CaughtIoCancelled c = emit (LOG kTrace) (send_stopper launched c)"
| "leave launched (CaughtIoSystemError e) c =
     emit (LOG (if e = connection_reset then kWarning else kError)) (send_stopper launched c)"
| "leave launched CaughtStdException c = emit (LOG kError) (send_stopper launched c)"

definition ListenForRequests ::
  "recv_result list \<Rightarrow> bool \<Rightarrow> connection \<Rightarrow> (reader_exit \<times> connection) option" where
  "ListenForRequests answers launched c =
     (case listen_loop answers
             (c\<lparr>max_length := requests_queue_size_threshold (config c)\<rparr>) of
        None \<Rightarrow> None
      | Some (how, c1) \<Rightarrow> Some (how, leave launched how c1))"

subsection \<open>The writer: HandleQueueItem, SendResponse, ProcessResponses, Shutdown\<close>

definition HandleQueueItem :: "task_result \<Rightarrow> request \<Rightarrow> connection \<Rightarrow> request \<times> connection" where
  "HandleQueueItem got request c =
     (if sender_cancel_requested c
      then (request,
            (emit (LOG kDebug) (emit (TaskSyncCancel (req_id request)) c))
              \<lparr>is_response_chain_valid := False\<rparr>)
      else case got of
        TaskDone \<Rightarrow> (request, c)
      | TaskCancelledException \<Rightarrow>
          (request, (emit (LOG kDebug) c)\<lparr>is_response_chain_valid := False\<rparr>)
      | WaitInterruptedException \<Rightarrow>
          (request, (emit (LOG kDebug) c)\<lparr>is_response_chain_valid := False\<rparr>)
      | TaskStdException \<Rightarrow>
          (request\<lparr>internal_server_error := True\<rparr>, emit (LOG kWarning) c))"

text \<open>
  The send path of SendResponse: the statement
  \<^verbatim>\<open>if (is_response_chain_valid_ && peer_socket_) { try ... } else ...\<close>.
\<close>

definition send_path :: "send_result \<Rightarrow> request \<Rightarrow> connection \<Rightarrow> request \<times> connection" where
  "send_path sending request c =
     (if is_response_chain_valid c \<and> peer_socket_valid c
      then (case sending of
              Sent \<Rightarrow> (request\<lparr>is_sent := True\<rparr>, c)
            | SendIoSystemError e \<Rightarrow>
                (request, emit (LOG (if e = broken_pipe then kWarning else kError)) c)
            | SendStdException \<Rightarrow>
                (request\<lparr>send_failed := True\<rparr>, emit (LOG kError) c))
      else (request\<lparr>send_failed := True\<rparr>, c))"

definition SendResponse ::
  "send_result \<Rightarrow> request \<Rightarrow> connection \<Rightarrow> assertion + request \<times> connection" where
  "SendResponse sending request c =
     (if is_sent request then Inl ResponseNotSent
      else
        let (r1, c1) = send_path sending request c;
            c2 = c1\<lparr>stats := (stats c1)
                   \<lparr>active_request_count := active_request_count (stats c1) - 1,
                    requests_processed_count := requests_processed_count (stats c1) + 1\<rparr>\<rparr>
        in Inr (r1, emit (WriteAccessLogs (req_id r1)) c2))"

text \<open>
  One turn of the loop of ProcessResponses on a popped item, when nothing throws out of
  it: HandleQueueItem, then SendResponse, then \<^verbatim>\<open>item.reset()\<close>. The answers of the
  handler task and of the response's send are looked up by the identity of the request.
  The time stamps themselves are not recorded.
\<close>

definition process_item ::
  "(nat \<Rightarrow> task_result) \<Rightarrow> (nat \<Rightarrow> send_result) \<Rightarrow> request \<Rightarrow> connection
     \<Rightarrow> assertion + connection" where
  "process_item tasks sends item c =
     (let (r1, c1) = HandleQueueItem (tasks (req_id item)) item c
      in case SendResponse (sends (req_id item)) r1 c1 of
           Inl a \<Rightarrow> Inl a
         | Inr (r2, c2) \<Rightarrow> Inr (c2\<lparr>finished := finished c2 @ [r2]\<rparr>))"

text \<open>
  The calls of a turn whose exception nothing catches before the
  \<^verbatim>\<open>catch (const std::exception&)\<close> of ProcessResponses: the SyncCancel of
  HandleQueueItem, and in SendResponse the two time stamps, SetSendFailed and
  WriteAccessLogs.
\<close>

datatype throw_point =
    SyncCancelThrows
  | SetStartSendResponseTimeThrows
  | SetSendFailedThrows
  | SetFinishSendResponseTimeThrows
  | WriteAccessLogsThrows

text \<open>
  The request and the connection at the moment the exception leaves the turn; \<open>None\<close>
  when the turn does not make that call (or fails the assertion of SendResponse before
  it). A call that throws has been made, and has changed nothing.
\<close>

fun abandoned_turn ::
  "throw_point \<Rightarrow> task_result \<Rightarrow> send_result \<Rightarrow> request \<Rightarrow> connection
     \<Rightarrow> (request \<times> connection) option" where
  "abandoned_turn SyncCancelThrows got sending item c =
     (if sender_cancel_requested c
      then Some (item, emit (TaskSyncCancel (req_id item)) c)
      else None)"
| "abandoned_turn SetStartSendResponseTimeThrows got sending item c =
     (let (r1, c1) = HandleQueueItem got item c
      in if is_sent r1 then None else Some (r1, c1))"
| "abandoned_turn SetSendFailedThrows got sending item c =
     (let (r1, c1) = HandleQueueItem got item c
      in if is_sent r1 then None
         else if \<not> (is_response_chain_valid c1 \<and> peer_socket_valid c1) then Some (r1, c1)
         else if sending = SendStdException then Some (r1, emit (LOG kError) c1)
         else None)"
| "abandoned_turn SetFinishSendResponseTimeThrows got sending item c =
     (let (r1, c1) = HandleQueueItem got item c
      in if is_sent r1 then None else Some (send_path sending r1 c1))"
| "abandoned_turn WriteAccessLogsThrows got sending item c =
     (let (r1, c1) = HandleQueueItem got item c
      in case SendResponse sending r1 c1 of
           Inl a \<Rightarrow> None
         | Inr (r2, c2) \<Rightarrow> Some (r2, c2))"

text \<open>
  What the handler of ProcessResponses leaves behind: the error is logged, and the item
  of the turn is destroyed with the scope.
\<close>

definition caught :: "request \<Rightarrow> connection \<Rightarrow> connection" where
  "caught r c = emit (LOG kError) (c\<lparr>finished := finished c @ [r]\<rparr>)"

text \<open>
  A turn of the loop: it completes, it throws to the handler of ProcessResponses, or it
  fails an assertion. \<open>throws\<close> names, by the identity of the request, the call that
  throws if the turn makes it.
\<close>

datatype turn_result = Done connection | Threw connection | Failed assertion

definition turn ::
  "(nat \<Rightarrow> throw_point option) \<Rightarrow> (nat \<Rightarrow> task_result) \<Rightarrow> (nat \<Rightarrow> send_result)
     \<Rightarrow> request \<Rightarrow> connection \<Rightarrow> turn_result" where
  "turn throws tasks sends item c =
     (case (case throws (req_id item) of
              None \<Rightarrow> None
            | Some p \<Rightarrow> abandoned_turn p (tasks (req_id item)) (sends (req_id item)) item c) of
        Some (r, c') \<Rightarrow> Threw (caught r c')
      | None \<Rightarrow>
          (case process_item tasks sends item c of
             Inl a \<Rightarrow> Failed a
           | Inr c' \<Rightarrow> Done c'))"

text \<open>
  ProcessResponses with nobody pushing meanwhile: the loop runs until Pop finds the
  queue empty or a turn throws. The loop follows the list of queued items;
  \<open>ProcessResponses_Pop\<close> below shows that this is the loop over Pop of the source.
\<close>

fun process_loop ::
  "(nat \<Rightarrow> throw_point option) \<Rightarrow> (nat \<Rightarrow> task_result) \<Rightarrow> (nat \<Rightarrow> send_result)
     \<Rightarrow> request list \<Rightarrow> connection \<Rightarrow> assertion + connection" where
  "process_loop throws tasks sends [] c = Inr c"
| "process_loop throws tasks sends (item # rest) c =
     (case turn throws tasks sends item (c\<lparr>request_tasks := rest\<rparr>) of
        Failed a \<Rightarrow> Inl a
      | Threw c' \<Rightarrow> Inr c'
      | Done c' \<Rightarrow> process_loop throws tasks sends rest c')"

definition ProcessResponses ::
  "(nat \<Rightarrow> throw_point option) \<Rightarrow> (nat \<Rightarrow> task_result) \<Rightarrow> (nat \<Rightarrow> send_result)
     \<Rightarrow> connection \<Rightarrow> assertion + connection" where
  "ProcessResponses throws tasks sends c = process_loop throws tasks sends (request_tasks c) c"

definition IsRequestTasksEmpty :: "connection \<Rightarrow> bool" where
  "IsRequestTasksEmpty c = (length (request_tasks c) = 0)"

definition Shutdown :: "connection \<Rightarrow> assertion + connection" where
  "Shutdown c =
     (if \<not> sender_task_valid c then Inl SenderTaskValid
      else
        let c1 = emit (LOG kTrace) c;
            c2 = emit SocketClose (c1\<lparr>peer_socket_valid := False\<rparr>);
            c3 = emit StatsClosed
                   (c2\<lparr>stats := (stats c2)
                      \<lparr>active_connections := active_connections (stats c2) - 1,
                       connections_closed := connections_closed (stats c2) + 1\<rparr>\<rparr>);
            c4 = (if close_cb c3
                  then emit CloseCb (c3\<lparr>close_cb_calls := close_cb_calls c3 + 1\<rparr>)
                  else c3)
        in if \<not> IsRequestTasksEmpty c4 then Inl RequestTasksEmpty
           else Inr (emit Detach ((emit TasksEmptyChecked c4)\<lparr>sender_task_valid := False\<rparr>)))"

subsection \<open>Start: the listener task and the sender task side by side\<close>

text \<open>
  Start spawns the socket listener (ListenForRequests) and the response sender, whose
  body is: ProcessResponses; \<^verbatim>\<open>socket_listener.SyncCancel()\<close>; ProcessResponses;
  Shutdown. The two tasks interleave at their suspension points, so each is cut into the
  steps between them: the listener at \<^verbatim>\<open>RecvSome\<close> and at every call of the sink
  (Push may wait for room), the sender at every Pop and at SyncCancel.
\<close>

datatype reader_pc =
    ReaderNotStarted
  | AtRecv
  | InParse "(bool \<times> bool) list" bool
  | ReaderDone

datatype writer_pc =
    FirstPass
  | SyncCancel
  | SecondPass
  | SenderDone
  | Aborted assertion

record system =
  conn :: connection
  reader :: reader_pc
  writer :: writer_pc
  listener_cancel_requested :: bool
  wait_launched :: bool

definition Start :: "bool \<Rightarrow> connection \<Rightarrow> system" where
  "Start launched c =
     \<lparr>conn = (emit (LOG kTrace) (emit (LOG kTrace) c))\<lparr>sender_task_valid := True\<rparr>,
      reader = ReaderNotStarted,
      writer = FirstPass,
      listener_cancel_requested = False,
      wait_launched = launched\<rparr>"

text \<open>
  A connection as its owner sets it up: Create, SetCloseCb (or not), Start. The sender
  waits for \<^verbatim>\<open>response_sender_assigned_event_\<close> before its first Pop, so the tasks
  are followed from the point where Start has sent both events.
\<close>

definition started :: "bool \<Rightarrow> bool \<Rightarrow> ConnectionConfig \<Rightarrow> Stats \<Rightarrow> system" where
  "started cb launched cfg st =
     Start launched (if cb then SetCloseCb (Connection cfg st) else Connection cfg st)"

text \<open>
  What can happen next. The listener: its body begins, or the task is cancelled before
  it ever ran; \<^verbatim>\<open>RecvSome\<close> answers; the parser calls the sink for the next request
  of the buffer; Parse returns. The sender: Pop hands over the front item and the loop
  body runs on it, to its end or to an exception that ends the pass; Pop finds nothing;
  the cancelled listener has finished. Anyone:
  \<^verbatim>\<open>Connection::Stop()\<close>.
\<close>

datatype action =
    ReaderRuns
  | ReaderDropped
  | Recv recv_result
  | SinkCall
  | ParseReturns
  | PopItem task_result send_result
  | TurnThrows throw_point task_result send_result
  | PopNothing
  | ListenerJoined
  | StopCall

definition reader_leaves :: "reader_exit \<Rightarrow> system \<Rightarrow> system" where
  "reader_leaves how s = s\<lparr>conn := leave (wait_launched s) how (conn s), reader := ReaderDone\<rparr>"

text \<open>
  What the sender does when a pass of ProcessResponses has ended: after the first it
  cancels the listener and waits for it, after the second it calls Shutdown.
\<close>

definition pass_ends :: "system \<Rightarrow> system option" where
  "pass_ends s =
     (case writer s of
        FirstPass \<Rightarrow> Some (s\<lparr>listener_cancel_requested := True, writer := SyncCancel\<rparr>)
      | SecondPass \<Rightarrow>
          (case Shutdown (conn s) of
             Inl a \<Rightarrow> Some (s\<lparr>writer := Aborted a\<rparr>)
           | Inr c \<Rightarrow> Some (s\<lparr>conn := c, writer := SenderDone\<rparr>))
      | _ \<Rightarrow> None)"

text \<open>
  One step; \<open>None\<close> when the step cannot happen in this state. A Push that would be
  accepted waits while the queue holds \<open>max_length\<close> items. Pop finds nothing only in an
  empty queue (the producer is gone, or the sender is cancelled). A pass of
  ProcessResponses ends when Pop finds nothing or when a turn throws.
\<close>

fun step :: "action \<Rightarrow> system \<Rightarrow> system option" where
  "step ReaderRuns s =
     (if reader s = ReaderNotStarted
      then Some (s\<lparr>conn := (conn s)\<lparr>max_length :=
                     requests_queue_size_threshold (config (conn s))\<rparr>,
                   reader := AtRecv\<rparr>)
      else None)"
| "step ReaderDropped s =
     (if reader s = ReaderNotStarted \<and> listener_cancel_requested s
      then Some (s\<lparr>reader := ReaderDone\<rparr>)
      else None)"
| "step (Recv r) s =
     (if reader s \<noteq> AtRecv then None
      else if \<not> is_accepting_requests (conn s) then Some (reader_leaves LoopEnd s)
      else case r of
        PeerClosed \<Rightarrow> Some (reader_leaves Return (s\<lparr>conn := emit (LOG kTrace) (conn s)\<rparr>))
      | ThrowIoCancelled \<Rightarrow> Some (reader_leaves CaughtIoCancelled s)
      | ThrowIoSystemError e \<Rightarrow> Some (reader_leaves (CaughtIoSystemError e) s)
      | ThrowStdException \<Rightarrow> Some (reader_leaves CaughtStdException s)
      | Received rs parse_ok \<Rightarrow>
          Some (s\<lparr>conn := emit (LOG kTrace) (conn s), reader := InParse rs parse_ok\<rparr>))"
| "step SinkCall s =
     (case reader s of
        InParse ((final, accepted) # rs) parse_ok \<Rightarrow>
          if is_accepting_requests (conn s) \<and> accepted
             \<and> \<not> length (request_tasks (conn s)) < max_length (conn s)
          then None
          else Some (s\<lparr>conn := sink final accepted (conn s), reader := InParse rs parse_ok\<rparr>)
      | _ \<Rightarrow> None)"
| "step ParseReturns s =
     (case reader s of
        InParse [] parse_ok \<Rightarrow>
          Some (s\<lparr>conn := parse_returned parse_ok (conn s), reader := AtRecv\<rparr>)
      | _ \<Rightarrow> None)"
| "step (PopItem got sending) s =
     (if writer s \<noteq> FirstPass \<and> writer s \<noteq> SecondPass then None
      else case Pop (conn s) of
        None \<Rightarrow> None
      | Some (item, c1) \<Rightarrow>
          (case process_item (\<lambda>_. got) (\<lambda>_. sending) item c1 of
             Inl a \<Rightarrow> Some (s\<lparr>conn := c1, writer := Aborted a\<rparr>)
           | Inr c2 \<Rightarrow> Some (s\<lparr>conn := c2\<rparr>)))"
| "step (TurnThrows p got sending) s =
     (if writer s \<noteq> FirstPass \<and> writer s \<noteq> SecondPass then None
      else case Pop (conn s) of
        None \<Rightarrow> None
      | Some (item, c1) \<Rightarrow>
          (case abandoned_turn p got sending item c1 of
             None \<Rightarrow> None
           | Some (r, c2) \<Rightarrow> pass_ends (s\<lparr>conn := caught r c2\<rparr>)))"
| "step PopNothing s = (if Pop (conn s) \<noteq> None then None else pass_ends s)"
| "step ListenerJoined s =
     (if writer s = SyncCancel \<and> reader s = ReaderDone
      then Some (s\<lparr>writer := SecondPass\<rparr>)
      else None)"
| "step StopCall s = Some (s\<lparr>conn := Stop (conn s)\<rparr>)"

fun run :: "action list \<Rightarrow> system \<Rightarrow> system option" where
  "run [] s = Some s"
| "run (a # as) s = (case step a s of None \<Rightarrow> None | Some s' \<Rightarrow> run as s')"

subsection \<open>Invariants of the running connection\<close>

text \<open>
  What holds of the queue and its history in every state a connection reaches, and how
  the two tasks are placed with respect to each other.
\<close>

definition pipeline_inv :: "connection \<Rightarrow> bool" where
  "pipeline_inv c =
     (map req_id (pushed c) = map req_id (finished c) @ map req_id (request_tasks c)
      \<and> (\<forall>r \<in> set (request_tasks c). \<not> is_sent r)
      \<and> sorted_wrt (<) (map req_id (pushed c))
      \<and> (\<forall>r \<in> set (pushed c). req_id r < parsed c))"

definition control_inv :: "system \<Rightarrow> bool" where
  "control_inv s =
     ((writer s = SecondPass \<or> writer s = SenderDone \<longrightarrow> reader s = ReaderDone)
      \<and> (writer s = SenderDone \<longrightarrow>
            request_tasks (conn s) = [] \<and> \<not> peer_socket_valid (conn s)
            \<and> close_cb_calls (conn s) \<le> 1)
      \<and> (writer s \<noteq> SenderDone \<longrightarrow>
            sender_task_valid (conn s) \<and> close_cb_calls (conn s) = 0)
      \<and> (\<forall>a. writer s = Aborted a \<longrightarrow> a = RequestTasksEmpty)
      \<and> (writer s \<noteq> FirstPass \<longrightarrow> listener_cancel_requested s))"

subsection \<open>Concrete connections and schedules\<close>

text \<open>
  Inputs on which the theorems below are evaluated.
\<close>

definition config0 :: ConnectionConfig where
  "config0 = \<lparr>in_buffer_size = 4096, requests_queue_size_threshold = 2\<rparr>"

definition stats0 :: Stats where
  "stats0 = \<lparr>active_connections = 0, connections_created = 0, connections_closed = 0,
     active_request_count = 0, requests_processed_count = 0\<rparr>"

definition schedule0 :: "action list" where
  "schedule0 =
     [ReaderRuns, Recv (Received [(False, True), (True, True), (False, True)] True),
      SinkCall, PopItem TaskStdException Sent, StopCall, PopNothing, SinkCall, SinkCall,
      ParseReturns, Recv ThrowIoCancelled, ListenerJoined, PopItem TaskDone Sent]"

definition drained0 :: system where
  "drained0 =
     \<lparr>conn = \<lparr>config = config0,
        stats = \<lparr>active_connections = 1, connections_created = 1, connections_closed = 0,
                  active_request_count = 0, requests_processed_count = 2\<rparr>,
        peer_socket_valid = True, request_tasks = [], max_length = 2,
        is_accepting_requests = False, is_response_chain_valid = False,
        close_cb = True, close_cb_calls = 0, sender_task_valid = True,
        sender_cancel_requested = True,
        trace = [LOG kDebug, LOG kTrace, LOG kTrace, LOG kTrace, LOG kWarning,
                 WriteAccessLogs 0, RequestCancel, LOG kTrace, TaskSyncCancel 1, LOG kDebug,
                 WriteAccessLogs 1],
        parsed = 3,
        pushed = [new_request 0 False, new_request 1 True],
        finished = [(new_request 0 False)\<lparr>internal_server_error := True, is_sent := True\<rparr>,
                    (new_request 1 True)\<lparr>send_failed := True\<rparr>]\<rparr>,
       reader = ReaderDone, writer = SecondPass,
       listener_cancel_requested = True, wait_launched = True\<rparr>"

definition closed0 :: system where
  "closed0 =
     drained0\<lparr>conn := (conn drained0)
        \<lparr>stats := \<lparr>active_connections = 0, connections_created = 1, connections_closed = 1,
                   active_request_count = 0, requests_processed_count = 2\<rparr>,
         peer_socket_valid := False, close_cb_calls := 1, sender_task_valid := False,
         trace := trace (conn drained0)
                  @ [LOG kTrace, SocketClose, StatsClosed, CloseCb, TasksEmptyChecked, Detach]\<rparr>,
       writer := SenderDone\<rparr>"

definition schedule1 :: "action list" where
  "schedule1 = [ReaderRuns, Recv (Received [(False, True)] True), SinkCall]"

definition queued1 :: system where
  "queued1 =
     \<lparr>conn = \<lparr>config = config0,
        stats = \<lparr>active_connections = 1, connections_created = 1, connections_closed = 0,
                  active_request_count = 1, requests_processed_count = 0\<rparr>,
        peer_socket_valid = True, request_tasks = [new_request 0 False], max_length = 2,
        is_accepting_requests = True, is_response_chain_valid = True,
        close_cb = True, close_cb_calls = 0, sender_task_valid = True,
        sender_cancel_requested = False,
        trace = [LOG kDebug, LOG kTrace, LOG kTrace, LOG kTrace],
        parsed = 1,
        pushed = [new_request 0 False],
        finished = []\<rparr>,
       reader = InParse [] True, writer = FirstPass,
       listener_cancel_requested = False, wait_launched = True\<rparr>"

definition conn0 :: connection where
  "conn0 = Connection config0 stats0"

definition crash_first :: "nat \<Rightarrow> task_result" where
  "crash_first n = (if n = 0 then TaskStdException else TaskDone)"

definition always_sent :: "nat \<Rightarrow> send_result" where
  "always_sent n = Sent"

definition always_done :: "nat \<Rightarrow> task_result" where
  "always_done n = TaskDone"

definition never_throws :: "nat \<Rightarrow> throw_point option" where
  "never_throws n = None"

definition first_throws :: "nat \<Rightarrow> throw_point option" where
  "first_throws n = (if n = 0 then Some WriteAccessLogsThrows else None)"

definition throw_schedule :: "action list" where
  "throw_schedule =
     [ReaderRuns, Recv (Received [(False, True), (False, True), (False, True)] True),
      SinkCall, PopItem TaskDone Sent, StopCall, PopNothing, SinkCall, SinkCall,
      ParseReturns, Recv ThrowIoCancelled, ListenerJoined,
      TurnThrows WriteAccessLogsThrows TaskDone Sent]"

definition pipelined0 :: connection where
  "pipelined0 = Parse [(False, True), (False, True)] conn0"

definition stopped0 :: connection where
  "stopped0 = Parse [(True, True)] conn0"

definition half_closed0 :: connection where
  "half_closed0 =
     snd (the (ListenForRequests [Received [(False, True)] True, PeerClosed] True conn0))"

definition final_seen0 :: connection where
  "final_seen0 = snd (the (ListenForRequests [Received [(True, True)] True] True conn0))"

definition reset0 :: connection where
  "reset0 = snd (the (ListenForRequests [ThrowIoSystemError connection_reset] True conn0))"

definition pipe0 :: connection where
  "pipe0 = snd (the (ListenForRequests [ThrowIoSystemError broken_pipe] True conn0))"

definition leak_schedule :: "action list" where
  "leak_schedule =
     [ReaderRuns, Recv (Received [(False, False)] True), SinkCall, ParseReturns,
      Recv PeerClosed, PopNothing, ListenerJoined, PopNothing]"

definition io_error_schedule :: "action list" where
  "io_error_schedule =
     [ReaderRuns, Recv (Received [(False, True)] True), SinkCall,
      PopItem TaskDone (SendIoSystemError broken_pipe)]"

fun is_throw :: "action \<Rightarrow> bool" where
  "is_throw (TurnThrows p got sending) = True"
| "is_throw a = False"

section \<open>Unfolding on concrete inputs\<close>

lemmas eval_defs = started_def Start_def Connection_def SetCloseCb_def Stop_def
  config0_def stats0_def reader_leaves_def parse_returned_def sink_def NewRequest_def
  Push_def Pop_def new_request_def process_item_def HandleQueueItem_def SendResponse_def
  send_path_def Shutdown_def IsRequestTasksEmpty_def send_stopper_def emit_def Let_def
  pass_ends_def caught_def turn_def

lemmas listen_defs = ListenForRequests_def conn0_def eval_defs connection_reset_def
  broken_pipe_def

section \<open>What each function changes\<close>

lemma emit_fields [simp]:
  "config (emit e c) = config c"
  "stats (emit e c) = stats c"
  "peer_socket_valid (emit e c) = peer_socket_valid c"
  "request_tasks (emit e c) = request_tasks c"
  "max_length (emit e c) = max_length c"
  "is_accepting_requests (emit e c) = is_accepting_requests c"
  "is_response_chain_valid (emit e c) = is_response_chain_valid c"
  "close_cb (emit e c) = close_cb c"
  "close_cb_calls (emit e c) = close_cb_calls c"
  "sender_task_valid (emit e c) = sender_task_valid c"
  "sender_cancel_requested (emit e c) = sender_cancel_requested c"
  "trace (emit e c) = trace c @ [e]"
  "parsed (emit e c) = parsed c"
  "pushed (emit e c) = pushed c"
  "finished (emit e c) = finished c"
  by (simp_all add: emit_def)

lemma sink_not_accepting:
  "\<not> is_accepting_requests c \<Longrightarrow> sink final accepted c = c\<lparr>parsed := parsed c + 1\<rparr>"
  by (simp add: sink_def NewRequest_def)

lemma sink_accepting_after:
  "is_accepting_requests (sink final accepted c) \<Longrightarrow> is_accepting_requests c \<and> \<not> final \<and> accepted"
  by (auto simp: sink_def NewRequest_def Push_def new_request_def Let_def split: if_splits)

lemma sink_final_stops: "\<not> is_accepting_requests (sink True accepted c)"
  by (auto simp: sink_def NewRequest_def Push_def new_request_def Let_def split: if_splits)

lemma Parse_not_accepting:
  "\<not> is_accepting_requests c \<Longrightarrow>
     request_tasks (Parse rs c) = request_tasks c \<and> pushed (Parse rs c) = pushed c
     \<and> stats (Parse rs c) = stats c \<and> \<not> is_accepting_requests (Parse rs c)"
proof (induction rs arbitrary: c)
  case Nil
  then show ?case by simp
next
  case (Cons a rs)
  obtain final accepted where a: "a = (final, accepted)" by (cases a)
  have "\<not> is_accepting_requests (c\<lparr>parsed := parsed c + 1\<rparr>)"
    using Cons.prems by simp
  from Cons.IH [OF this] show ?case
    using Cons.prems by (simp add: a sink_not_accepting)
qed

lemma Parse_append: "Parse (rs @ rs') c = Parse rs' (Parse rs c)"
  by (induction rs arbitrary: c) auto

lemma NewRequest_not_accepting:
  "\<not> is_accepting_requests c \<Longrightarrow> NewRequest r accepted c = (True, c)"
  by (simp add: NewRequest_def)

lemma NewRequest_final:
  "is_accepting_requests c \<Longrightarrow> is_final r \<Longrightarrow>
     \<not> is_accepting_requests (snd (NewRequest r accepted c))
     \<and> request_tasks (snd (NewRequest r True c)) = request_tasks c @ [r]"
  by (simp add: NewRequest_def Push_def Let_def)

lemma leave_fields [simp]:
  "is_accepting_requests (leave l how c) = is_accepting_requests c"
  "request_tasks (leave l how c) = request_tasks c"
  "pushed (leave l how c) = pushed c"
  "finished (leave l how c) = finished c"
  "parsed (leave l how c) = parsed c"
  "stats (leave l how c) = stats c"
  by (cases how; simp add: send_stopper_def)+

lemma listen_loop_exit:
  "listen_loop answers c = Some (how, c1) \<Longrightarrow>
     (how = LoopEnd) = (\<not> is_accepting_requests c1)"
proof (induction answers c rule: listen_loop.induct)
  case (1 c)
  then show ?case by (auto split: if_splits)
next
  case (2 r rest c)
  then show ?case by (cases r) (auto split: if_splits)
qed

lemma leave_cancel:
  "sender_cancel_requested (leave launched how c)
     = (sender_cancel_requested c \<or> (how \<noteq> LoopEnd \<and> launched))"
  by (cases how) (simp_all add: send_stopper_def)

lemma leave_RequestCancel:
  "length (filter ((=) RequestCancel) (trace (leave launched how c)))
     = length (filter ((=) RequestCancel) (trace c))
       + (if how \<noteq> LoopEnd \<and> launched then 1 else 0)"
  by (cases how) (simp_all add: send_stopper_def)

lemma sink_trace [simp]: "trace (sink final accepted c) = trace c"
  by (simp add: sink_def NewRequest_def Push_def Let_def)

lemma sink_cancel [simp]: "sender_cancel_requested (sink final accepted c) = sender_cancel_requested c"
  by (simp add: sink_def NewRequest_def Push_def Let_def)

lemma Parse_trace [simp]: "trace (Parse rs c) = trace c"
  by (induction rs c rule: Parse.induct) simp_all

lemma Parse_cancel [simp]: "sender_cancel_requested (Parse rs c) = sender_cancel_requested c"
  by (induction rs c rule: Parse.induct) simp_all

lemma parse_returned_fields [simp]:
  "trace (parse_returned ok c) = trace c @ (if ok then [] else [LOG kDebug])"
  "sender_cancel_requested (parse_returned ok c) = sender_cancel_requested c"
  "request_tasks (parse_returned ok c) = request_tasks c"
  "pushed (parse_returned ok c) = pushed c"
  "finished (parse_returned ok c) = finished c"
  "parsed (parse_returned ok c) = parsed c"
  "stats (parse_returned ok c) = stats c"
  "is_accepting_requests (parse_returned ok c) = (ok \<and> is_accepting_requests c)"
  by (simp_all add: parse_returned_def)

lemma listen_loop_cancel:
  "listen_loop answers c = Some (how, c1) \<Longrightarrow>
     sender_cancel_requested c1 = sender_cancel_requested c
     \<and> filter ((=) RequestCancel) (trace c1) = filter ((=) RequestCancel) (trace c)"
proof (induction answers c rule: listen_loop.induct)
  case (1 c)
  then show ?case by (simp split: if_splits)
next
  case (2 r rest c)
  show ?case
  proof (cases "is_accepting_requests c")
    case False
    with 2 show ?thesis by simp
  next
    case True
    show ?thesis
    proof (cases r)
      case (Received rs parse_ok)
      with 2 True have "listen_loop rest (parse_returned parse_ok (Parse rs (emit (LOG kTrace) c)))
                          = Some (how, c1)"
        by simp
      from "2.IH" [OF _ Received this] True show ?thesis by simp
    qed (use "2.prems" True in \<open>auto\<close>)
  qed
qed

lemma listen_loop_thrown:
  "listen_loop answers c = Some (CaughtIoSystemError e, c1) \<Longrightarrow>
     ThrowIoSystemError e \<in> set answers"
proof (induction answers c rule: listen_loop.induct)
  case (1 c)
  then show ?case by (simp split: if_splits)
next
  case (2 r rest c)
  show ?case
  proof (cases r)
    case (Received rs parse_ok)
    with 2 show ?thesis by (simp split: if_splits)
  qed (use 2 in \<open>simp_all split: if_splits\<close>)
qed

lemma ListenForRequests_throws:
  "is_accepting_requests c \<Longrightarrow>
     ListenForRequests (ThrowIoSystemError e # rest) launched c
       = Some (CaughtIoSystemError e,
               leave launched (CaughtIoSystemError e)
                 (c\<lparr>max_length := requests_queue_size_threshold (config c)\<rparr>))"
  by (simp add: ListenForRequests_def)

lemma leave_io_error_last:
  "last (trace (leave launched (CaughtIoSystemError e) c))
     = LOG (if e = connection_reset then kWarning else kError)"
  by simp

lemma HandleQueueItem_request [simp]:
  "req_id (fst (HandleQueueItem got r c)) = req_id r"
  "is_sent (fst (HandleQueueItem got r c)) = is_sent r"
  "send_failed (fst (HandleQueueItem got r c)) = send_failed r"
  "is_final (fst (HandleQueueItem got r c)) = is_final r"
  by (cases got; simp add: HandleQueueItem_def)+

lemma HandleQueueItem_fields [simp]:
  "config (snd (HandleQueueItem got r c)) = config c"
  "stats (snd (HandleQueueItem got r c)) = stats c"
  "peer_socket_valid (snd (HandleQueueItem got r c)) = peer_socket_valid c"
  "request_tasks (snd (HandleQueueItem got r c)) = request_tasks c"
  "max_length (snd (HandleQueueItem got r c)) = max_length c"
  "is_accepting_requests (snd (HandleQueueItem got r c)) = is_accepting_requests c"
  "close_cb (snd (HandleQueueItem got r c)) = close_cb c"
  "close_cb_calls (snd (HandleQueueItem got r c)) = close_cb_calls c"
  "sender_task_valid (snd (HandleQueueItem got r c)) = sender_task_valid c"
  "sender_cancel_requested (snd (HandleQueueItem got r c)) = sender_cancel_requested c"
  "parsed (snd (HandleQueueItem got r c)) = parsed c"
  "pushed (snd (HandleQueueItem got r c)) = pushed c"
  "finished (snd (HandleQueueItem got r c)) = finished c"
  by (cases got; simp add: HandleQueueItem_def)+

lemma HandleQueueItem_crash:
  "\<not> sender_cancel_requested c \<Longrightarrow>
     HandleQueueItem TaskStdException r c
       = (r\<lparr>internal_server_error := True\<rparr>, emit (LOG kWarning) c)"
  by (simp add: HandleQueueItem_def)

lemma SendResponse_Inl:
  "(SendResponse sending r c = Inl a) = (is_sent r \<and> a = ResponseNotSent)"
  by (cases sending) (auto simp: SendResponse_def send_path_def Let_def split: prod.splits)

lemma SendResponse_Inr:
  assumes "SendResponse sending r c = Inr (r2, c2)"
  shows "req_id r2 = req_id r \<and> is_final r2 = is_final r
       \<and> internal_server_error r2 = internal_server_error r
       \<and> config c2 = config c \<and> peer_socket_valid c2 = peer_socket_valid c
       \<and> request_tasks c2 = request_tasks c \<and> max_length c2 = max_length c
       \<and> is_accepting_requests c2 = is_accepting_requests c
       \<and> is_response_chain_valid c2 = is_response_chain_valid c
       \<and> close_cb c2 = close_cb c \<and> close_cb_calls c2 = close_cb_calls c
       \<and> sender_task_valid c2 = sender_task_valid c
       \<and> sender_cancel_requested c2 = sender_cancel_requested c
       \<and> parsed c2 = parsed c \<and> pushed c2 = pushed c \<and> finished c2 = finished c
       \<and> active_request_count (stats c2) = active_request_count (stats c) - 1
       \<and> requests_processed_count (stats c2) = requests_processed_count (stats c) + 1"
  using assms
  by (cases sending) (auto simp: SendResponse_def send_path_def Let_def split: if_splits)

lemma SendResponse_flags:
  assumes "SendResponse sending r c = Inr (r2, c2)"
  shows "is_sent r2 = (is_response_chain_valid c \<and> peer_socket_valid c \<and> sending = Sent)"
    and "send_failed r2 = (send_failed r \<or> \<not> (is_response_chain_valid c \<and> peer_socket_valid c)
                            \<or> sending = SendStdException)"
  using assms
  by (cases sending; auto simp: SendResponse_def send_path_def Let_def split: if_splits)+

lemma process_item_Inl:
  "(process_item tasks sends item c = Inl a) = (is_sent item \<and> a = ResponseNotSent)"
proof -
  obtain r1 c1 where h: "HandleQueueItem (tasks (req_id item)) item c = (r1, c1)"
    by (cases "HandleQueueItem (tasks (req_id item)) item c")
  have "is_sent r1 = is_sent item"
    using HandleQueueItem_request(2) [of "tasks (req_id item)" item c] by (simp add: h)
  then show ?thesis
    using SendResponse_Inl [of "sends (req_id item)" r1 c1 a]
    by (auto simp: process_item_def h split: sum.splits)
qed

lemma process_item_Inr:
  assumes "process_item tasks sends item c = Inr c2"
  shows "\<exists>r2. finished c2 = finished c @ [r2] \<and> req_id r2 = req_id item"
    and "config c2 = config c" and "peer_socket_valid c2 = peer_socket_valid c"
    and "request_tasks c2 = request_tasks c" and "max_length c2 = max_length c"
    and "is_accepting_requests c2 = is_accepting_requests c"
    and "close_cb c2 = close_cb c" and "close_cb_calls c2 = close_cb_calls c"
    and "sender_task_valid c2 = sender_task_valid c"
    and "sender_cancel_requested c2 = sender_cancel_requested c"
    and "parsed c2 = parsed c" and "pushed c2 = pushed c"
    and "active_request_count (stats c2) = active_request_count (stats c) - 1"
proof -
  obtain r1 c1 where h: "HandleQueueItem (tasks (req_id item)) item c = (r1, c1)"
    by (cases "HandleQueueItem (tasks (req_id item)) item c")
  from assms obtain r2 c3 where s: "SendResponse (sends (req_id item)) r1 c1 = Inr (r2, c3)"
    and c2: "c2 = c3\<lparr>finished := finished c3 @ [r2]\<rparr>"
    by (auto simp: process_item_def h split: sum.splits)
  have r1: "r1 = fst (HandleQueueItem (tasks (req_id item)) item c)"
    and c1: "c1 = snd (HandleQueueItem (tasks (req_id item)) item c)"
    by (simp_all add: h)
  note S = SendResponse_Inr [OF s]
  show "\<exists>r2. finished c2 = finished c @ [r2] \<and> req_id r2 = req_id item"
    using S by (simp add: c2 r1 c1)
  show "config c2 = config c" using S by (simp add: c2 c1)
  show "peer_socket_valid c2 = peer_socket_valid c" using S by (simp add: c2 c1)
  show "request_tasks c2 = request_tasks c" using S by (simp add: c2 c1)
  show "max_length c2 = max_length c" using S by (simp add: c2 c1)
  show "is_accepting_requests c2 = is_accepting_requests c" using S by (simp add: c2 c1)
  show "close_cb c2 = close_cb c" using S by (simp add: c2 c1)
  show "close_cb_calls c2 = close_cb_calls c" using S by (simp add: c2 c1)
  show "sender_task_valid c2 = sender_task_valid c" using S by (simp add: c2 c1)
  show "sender_cancel_requested c2 = sender_cancel_requested c" using S by (simp add: c2 c1)
  show "parsed c2 = parsed c" using S by (simp add: c2 c1)
  show "pushed c2 = pushed c" using S by (simp add: c2 c1)
  show "active_request_count (stats c2) = active_request_count (stats c) - 1"
    using S by (simp add: c2 c1)
qed

lemma send_path_fields [simp]:
  "req_id (fst (send_path sending r c)) = req_id r"
  "config (snd (send_path sending r c)) = config c"
  "stats (snd (send_path sending r c)) = stats c"
  "peer_socket_valid (snd (send_path sending r c)) = peer_socket_valid c"
  "request_tasks (snd (send_path sending r c)) = request_tasks c"
  "max_length (snd (send_path sending r c)) = max_length c"
  "is_accepting_requests (snd (send_path sending r c)) = is_accepting_requests c"
  "is_response_chain_valid (snd (send_path sending r c)) = is_response_chain_valid c"
  "close_cb (snd (send_path sending r c)) = close_cb c"
  "close_cb_calls (snd (send_path sending r c)) = close_cb_calls c"
  "sender_task_valid (snd (send_path sending r c)) = sender_task_valid c"
  "sender_cancel_requested (snd (send_path sending r c)) = sender_cancel_requested c"
  "parsed (snd (send_path sending r c)) = parsed c"
  "pushed (snd (send_path sending r c)) = pushed c"
  "finished (snd (send_path sending r c)) = finished c"
  by (cases sending; simp add: send_path_def)+

lemma abandoned_turn_Some:
  assumes "abandoned_turn p got sending item c = Some (r, c2)"
  shows "req_id r = req_id item \<and> config c2 = config c
       \<and> peer_socket_valid c2 = peer_socket_valid c
       \<and> request_tasks c2 = request_tasks c \<and> max_length c2 = max_length c
       \<and> is_accepting_requests c2 = is_accepting_requests c
       \<and> close_cb c2 = close_cb c \<and> close_cb_calls c2 = close_cb_calls c
       \<and> sender_task_valid c2 = sender_task_valid c
       \<and> sender_cancel_requested c2 = sender_cancel_requested c
       \<and> parsed c2 = parsed c \<and> pushed c2 = pushed c \<and> finished c2 = finished c"
proof -
  obtain r1 c1 where h: "HandleQueueItem got item c = (r1, c1)"
    by (cases "HandleQueueItem got item c")
  have r1: "r1 = fst (HandleQueueItem got item c)"
    and c1: "c1 = snd (HandleQueueItem got item c)"
    by (simp_all add: h)
  show ?thesis
  proof (cases p)
    case SyncCancelThrows
    with assms show ?thesis by (auto split: if_splits)
  next
    case SetStartSendResponseTimeThrows
    with assms h have "r = r1" "c2 = c1" by (auto split: if_splits)
    then show ?thesis by (simp add: r1 c1)
  next
    case SetSendFailedThrows
    with assms h have "r = r1" "c2 = c1 \<or> c2 = emit (LOG kError) c1"
      by (auto split: if_splits)
    then show ?thesis by (auto simp: r1 c1)
  next
    case SetFinishSendResponseTimeThrows
    with assms h have "r = fst (send_path sending r1 c1)" "c2 = snd (send_path sending r1 c1)"
      by (auto split: if_splits)
    then show ?thesis by (simp add: r1 c1)
  next
    case WriteAccessLogsThrows
    with assms h have "SendResponse sending r1 c1 = Inr (r, c2)"
      by (auto split: sum.splits)
    from SendResponse_Inr [OF this] show ?thesis by (simp add: r1 c1)
  qed
qed

lemma caught_fields [simp]:
  "config (caught r c) = config c"
  "stats (caught r c) = stats c"
  "peer_socket_valid (caught r c) = peer_socket_valid c"
  "request_tasks (caught r c) = request_tasks c"
  "max_length (caught r c) = max_length c"
  "is_accepting_requests (caught r c) = is_accepting_requests c"
  "is_response_chain_valid (caught r c) = is_response_chain_valid c"
  "close_cb (caught r c) = close_cb c"
  "close_cb_calls (caught r c) = close_cb_calls c"
  "sender_task_valid (caught r c) = sender_task_valid c"
  "sender_cancel_requested (caught r c) = sender_cancel_requested c"
  "trace (caught r c) = trace c @ [LOG kError]"
  "parsed (caught r c) = parsed c"
  "pushed (caught r c) = pushed c"
  "finished (caught r c) = finished c @ [r]"
  by (simp_all add: caught_def)

lemma turn_cases:
  "(\<exists>p r c'. throws (req_id item) = Some p
      \<and> abandoned_turn p (tasks (req_id item)) (sends (req_id item)) item c = Some (r, c')
      \<and> turn throws tasks sends item c = Threw (caught r c'))
   \<or> (\<exists>a. process_item tasks sends item c = Inl a \<and> turn throws tasks sends item c = Failed a)
   \<or> (\<exists>c'. process_item tasks sends item c = Inr c' \<and> turn throws tasks sends item c = Done c')"
  by (auto simp: turn_def split: option.splits sum.splits)

lemma turn_request_tasks:
  assumes "turn throws tasks sends item c = Done c' \<or> turn throws tasks sends item c = Threw c'"
  shows "request_tasks c' = request_tasks c"
proof -
  from turn_cases [of throws item tasks sends c] assms
  consider p r c2 where "abandoned_turn p (tasks (req_id item)) (sends (req_id item)) item c
        = Some (r, c2)" "c' = caught r c2"
    | "process_item tasks sends item c = Inr c'"
    by auto
  then show ?thesis
  proof cases
    case 1
    from abandoned_turn_Some [OF 1(1)] 1(2) show ?thesis by simp
  next
    case 2
    then show ?thesis by (rule process_item_Inr(4))
  qed
qed

lemma ProcessResponses_Pop:
  "ProcessResponses throws tasks sends c =
     (case Pop c of
        None \<Rightarrow> Inr c
      | Some (item, c1) \<Rightarrow>
          (case turn throws tasks sends item c1 of
             Failed a \<Rightarrow> Inl a
           | Threw c2 \<Rightarrow> Inr c2
           | Done c2 \<Rightarrow> ProcessResponses throws tasks sends c2))"
proof (cases "request_tasks c")
  case Nil
  then show ?thesis by (simp add: ProcessResponses_def Pop_def)
next
  case (Cons item rest)
  show ?thesis
  proof (cases "turn throws tasks sends item (c\<lparr>request_tasks := rest\<rparr>)")
    case (Done c2)
    with turn_request_tasks [of throws tasks sends item "c\<lparr>request_tasks := rest\<rparr>" c2]
    have "request_tasks c2 = rest" by simp
    with Cons Done show ?thesis by (simp add: ProcessResponses_def Pop_def)
  next
    case (Threw c2)
    with Cons show ?thesis by (simp add: ProcessResponses_def Pop_def)
  next
    case (Failed a)
    with Cons show ?thesis by (simp add: ProcessResponses_def Pop_def)
  qed
qed

lemma sink_fields [simp]:
  "config (sink final accepted c) = config c"
  "peer_socket_valid (sink final accepted c) = peer_socket_valid c"
  "max_length (sink final accepted c) = max_length c"
  "is_response_chain_valid (sink final accepted c) = is_response_chain_valid c"
  "close_cb (sink final accepted c) = close_cb c"
  "close_cb_calls (sink final accepted c) = close_cb_calls c"
  "sender_task_valid (sink final accepted c) = sender_task_valid c"
  "finished (sink final accepted c) = finished c"
  "parsed (sink final accepted c) = parsed c + 1"
  by (simp_all add: sink_def NewRequest_def Push_def Let_def)

lemma sink_queue:
  "request_tasks (sink final accepted c) =
     (if is_accepting_requests c \<and> accepted
      then request_tasks c @ [new_request (parsed c) final] else request_tasks c)"
  "pushed (sink final accepted c) =
     (if is_accepting_requests c \<and> accepted
      then pushed c @ [new_request (parsed c) final] else pushed c)"
  by (simp_all add: sink_def NewRequest_def Push_def Let_def)

lemma leave_more_fields [simp]:
  "config (leave l how c) = config c"
  "peer_socket_valid (leave l how c) = peer_socket_valid c"
  "max_length (leave l how c) = max_length c"
  "is_response_chain_valid (leave l how c) = is_response_chain_valid c"
  "close_cb (leave l how c) = close_cb c"
  "close_cb_calls (leave l how c) = close_cb_calls c"
  "sender_task_valid (leave l how c) = sender_task_valid c"
  by (cases how; simp add: send_stopper_def)+

lemma parse_returned_more_fields [simp]:
  "config (parse_returned ok c) = config c"
  "peer_socket_valid (parse_returned ok c) = peer_socket_valid c"
  "max_length (parse_returned ok c) = max_length c"
  "is_response_chain_valid (parse_returned ok c) = is_response_chain_valid c"
  "close_cb (parse_returned ok c) = close_cb c"
  "close_cb_calls (parse_returned ok c) = close_cb_calls c"
  "sender_task_valid (parse_returned ok c) = sender_task_valid c"
  by (simp_all add: parse_returned_def)

section \<open>The invariants hold in every reachable state\<close>

lemma pipeline_inv_cong:
  "request_tasks c' = request_tasks c \<Longrightarrow> pushed c' = pushed c \<Longrightarrow>
   finished c' = finished c \<Longrightarrow> parsed c' = parsed c \<Longrightarrow>
   pipeline_inv c' = pipeline_inv c"
  by (simp add: pipeline_inv_def)

lemma pipeline_inv_sink:
  assumes "pipeline_inv c"
  shows "pipeline_inv (sink final accepted c)"
proof -
  from assms have below: "\<forall>r \<in> set (pushed c). req_id r < parsed c"
    and sorted: "sorted_wrt (<) (map req_id (pushed c))"
    and fifo: "map req_id (pushed c) = map req_id (finished c) @ map req_id (request_tasks c)"
    and unsent: "\<forall>r \<in> set (request_tasks c). \<not> is_sent r"
    unfolding pipeline_inv_def by blast+
  have new: "req_id (new_request (parsed c) final) = parsed c"
    "\<not> is_sent (new_request (parsed c) final)"
    by (simp_all add: new_request_def)
  show ?thesis
    unfolding pipeline_inv_def
  proof (intro conjI)
    show "map req_id (pushed (sink final accepted c))
            = map req_id (finished (sink final accepted c))
              @ map req_id (request_tasks (sink final accepted c))"
      using fifo by (simp add: sink_queue)
    show "\<forall>r \<in> set (request_tasks (sink final accepted c)). \<not> is_sent r"
      using unsent by (simp add: sink_queue new)
    show "sorted_wrt (<) (map req_id (pushed (sink final accepted c)))"
      using below sorted by (simp add: sink_queue sorted_wrt_append new)
    show "\<forall>r \<in> set (pushed (sink final accepted c)).
            req_id r < parsed (sink final accepted c)"
      using below by (auto simp: sink_queue new)
  qed
qed

lemma pipeline_inv_pop:
  assumes "pipeline_inv c" and "Pop c = Some (item, c1)"
    and "process_item tasks sends item c1 = Inr c2"
  shows "pipeline_inv c2"
proof -
  from assms(1) have below: "\<forall>r \<in> set (pushed c). req_id r < parsed c"
    and sorted: "sorted_wrt (<) (map req_id (pushed c))"
    and fifo: "map req_id (pushed c) = map req_id (finished c) @ map req_id (request_tasks c)"
    and unsent: "\<forall>r \<in> set (request_tasks c). \<not> is_sent r"
    unfolding pipeline_inv_def by blast+
  from assms(2) obtain rest where q: "request_tasks c = item # rest"
    and c1: "c1 = c\<lparr>request_tasks := rest\<rparr>"
    by (auto simp: Pop_def split: list.splits)
  from process_item_Inr(1) [OF assms(3)] obtain r2 where
    fin: "finished c2 = finished c1 @ [r2]" and id: "req_id r2 = req_id item"
    by blast
  note rest = process_item_Inr(4,11,12) [OF assms(3)]
  show ?thesis
    unfolding pipeline_inv_def
  proof (intro conjI)
    show "map req_id (pushed c2) = map req_id (finished c2) @ map req_id (request_tasks c2)"
      using fifo q by (simp add: fin id rest c1)
    show "\<forall>r \<in> set (request_tasks c2). \<not> is_sent r"
      using unsent q by (simp add: rest c1)
    show "sorted_wrt (<) (map req_id (pushed c2))"
      using sorted by (simp add: rest c1)
    show "\<forall>r \<in> set (pushed c2). req_id r < parsed c2"
      using below by (simp add: rest c1)
  qed
qed

lemma pipeline_inv_thrown:
  assumes "pipeline_inv c" and "Pop c = Some (item, c1)"
    and "abandoned_turn p got sending item c1 = Some (r, c2)"
  shows "pipeline_inv (caught r c2)"
proof -
  from assms(1) have below: "\<forall>r \<in> set (pushed c). req_id r < parsed c"
    and sorted: "sorted_wrt (<) (map req_id (pushed c))"
    and fifo: "map req_id (pushed c) = map req_id (finished c) @ map req_id (request_tasks c)"
    and unsent: "\<forall>r \<in> set (request_tasks c). \<not> is_sent r"
    unfolding pipeline_inv_def by blast+
  from assms(2) obtain rest where q: "request_tasks c = item # rest"
    and c1: "c1 = c\<lparr>request_tasks := rest\<rparr>"
    by (auto simp: Pop_def split: list.splits)
  note A = abandoned_turn_Some [OF assms(3)]
  show ?thesis
    unfolding pipeline_inv_def
  proof (intro conjI)
    show "map req_id (pushed (caught r c2))
            = map req_id (finished (caught r c2)) @ map req_id (request_tasks (caught r c2))"
      using fifo q A by (simp add: c1)
    show "\<forall>x \<in> set (request_tasks (caught r c2)). \<not> is_sent x"
      using unsent q A by (simp add: c1)
    show "sorted_wrt (<) (map req_id (pushed (caught r c2)))"
      using sorted A by (simp add: c1)
    show "\<forall>x \<in> set (pushed (caught r c2)). req_id x < parsed (caught r c2)"
      using below A by (simp add: c1)
  qed
qed

lemma pop_never_aborts:
  assumes "pipeline_inv c" and "Pop c = Some (item, c1)"
  shows "process_item tasks sends item c1 \<noteq> Inl a"
proof -
  from assms(2) have "item \<in> set (request_tasks c)"
    by (auto simp: Pop_def split: list.splits)
  with assms(1) have "\<not> is_sent item" by (simp add: pipeline_inv_def)
  then show ?thesis by (simp add: process_item_Inl)
qed

lemma Shutdown_Inl:
  "(Shutdown c = Inl a) =
     (\<not> sender_task_valid c \<and> a = SenderTaskValid
      \<or> sender_task_valid c \<and> request_tasks c \<noteq> [] \<and> a = RequestTasksEmpty)"
  by (auto simp: Shutdown_def IsRequestTasksEmpty_def Let_def)

lemma Shutdown_Inr:
  assumes "Shutdown c = Inr c'"
  shows "\<not> peer_socket_valid c' \<and> request_tasks c' = [] \<and> request_tasks c = []
       \<and> close_cb_calls c' = close_cb_calls c + (if close_cb c then 1 else 0)
       \<and> trace c' = trace c @ [LOG kTrace, SocketClose, StatsClosed]
                      @ (if close_cb c then [CloseCb] else []) @ [TasksEmptyChecked, Detach]
       \<and> active_connections (stats c') = active_connections (stats c) - 1
       \<and> connections_closed (stats c') = connections_closed (stats c) + 1
       \<and> \<not> sender_task_valid c' \<and> sender_task_valid c
       \<and> pushed c' = pushed c \<and> finished c' = finished c \<and> parsed c' = parsed c"
  using assms
  by (auto simp: Shutdown_def IsRequestTasksEmpty_def Let_def split: if_splits)

lemma pipeline_inv_simps [simp]:
  "pipeline_inv (emit e c) = pipeline_inv c"
  "pipeline_inv (leave l how c) = pipeline_inv c"
  "pipeline_inv (parse_returned ok c) = pipeline_inv c"
  "pipeline_inv (Stop c) = pipeline_inv c"
  "pipeline_inv (c\<lparr>max_length := n\<rparr>) = pipeline_inv c"
  by (rule pipeline_inv_cong; simp add: Stop_def)+

lemma step_Recv_preserves:
  assumes "\<And>e c. P (emit e c) = P c" and "\<And>l how c. P (leave l how c) = P c"
    and "step (Recv r) s = Some s'"
  shows "P (conn s') = P (conn s)"
  using assms(3)
  by (cases r) (auto simp: reader_leaves_def assms(1,2) simp del: leave.simps split: if_splits)

lemma pass_ends_pipeline_inv:
  assumes "pipeline_inv (conn s)" and "pass_ends s = Some s'"
  shows "pipeline_inv (conn s')"
proof (cases "writer s = SecondPass")
  case False
  with assms show ?thesis
    by (auto simp: pass_ends_def split: writer_pc.splits)
next
  case True
  show ?thesis
  proof (cases "Shutdown (conn s)")
    case (Inl x)
    with assms True show ?thesis by (auto simp: pass_ends_def)
  next
    case (Inr c')
    with assms(2) True have c: "conn s' = c'" by (auto simp: pass_ends_def)
    from Shutdown_Inr [OF Inr] have "pipeline_inv c' = pipeline_inv (conn s)"
      by (intro pipeline_inv_cong) simp_all
    with assms(1) c show ?thesis by simp
  qed
qed

lemma step_pipeline_inv:
  assumes "pipeline_inv (conn s)" and "step a s = Some s'"
  shows "pipeline_inv (conn s')"
proof (cases a)
  case ReaderRuns
  with assms show ?thesis by (auto split: if_splits)
next
  case ReaderDropped
  with assms show ?thesis by (auto split: if_splits)
next
  case (Recv r)
  with assms(2) have "step (Recv r) s = Some s'" by simp
  from step_Recv_preserves [of pipeline_inv, OF _ _ this] assms(1) show ?thesis by simp
next
  case SinkCall
  with assms show ?thesis
    by (auto simp: pipeline_inv_sink split: reader_pc.splits list.splits if_splits)
next
  case ParseReturns
  with assms show ?thesis
    by (auto split: reader_pc.splits list.splits)
next
  case (PopItem got sending)
  with assms(2) obtain item c1 where pop: "Pop (conn s) = Some (item, c1)"
    by (auto split: if_splits option.splits)
  from pop_never_aborts [OF assms(1) pop] obtain c2 where
    p: "process_item (\<lambda>_. got) (\<lambda>_. sending) item c1 = Inr c2"
    by (cases "process_item (\<lambda>_. got) (\<lambda>_. sending) item c1") auto
  with assms(2) PopItem pop have "conn s' = c2"
    by (auto split: if_splits)
  with pipeline_inv_pop [OF assms(1) pop p] show ?thesis by simp
next
  case PopNothing
  with assms(2) have "pass_ends s = Some s'" by (auto split: if_splits)
  from pass_ends_pipeline_inv [OF assms(1) this] show ?thesis .
next
  case (TurnThrows p got sending)
  with assms(2) obtain item c1 r c2 where pop: "Pop (conn s) = Some (item, c1)"
    and a: "abandoned_turn p got sending item c1 = Some (r, c2)"
    and e: "pass_ends (s\<lparr>conn := caught r c2\<rparr>) = Some s'"
    by (auto split: if_splits option.splits)
  from pipeline_inv_thrown [OF assms(1) pop a]
  have "pipeline_inv (conn (s\<lparr>conn := caught r c2\<rparr>))" by simp
  from pass_ends_pipeline_inv [OF this e] show ?thesis .
next
  case ListenerJoined
  with assms show ?thesis by (auto split: if_splits)
next
  case StopCall
  with assms show ?thesis by auto
qed

lemma reader_step:
  assumes "step a s = Some s'"
    and "a = ReaderRuns \<or> a = ReaderDropped \<or> a = Recv r \<or> a = SinkCall \<or> a = ParseReturns"
  shows "reader s \<noteq> ReaderDone \<and> writer s' = writer s
       \<and> listener_cancel_requested s' = listener_cancel_requested s
       \<and> sender_task_valid (conn s') = sender_task_valid (conn s)
       \<and> close_cb_calls (conn s') = close_cb_calls (conn s)"
proof -
  consider "a = ReaderRuns" | "a = ReaderDropped" | "a = Recv r" | "a = SinkCall"
    | "a = ParseReturns"
    using assms(2) by blast
  then show ?thesis
  proof cases
    case 1
    with assms(1) show ?thesis by (auto split: if_splits)
  next
    case 2
    with assms(1) show ?thesis by (auto split: if_splits)
  next
    case 3
    with assms(1) have r: "step (Recv r) s = Some s'" by simp
    have "reader s \<noteq> ReaderDone \<and> writer s' = writer s
       \<and> listener_cancel_requested s' = listener_cancel_requested s"
      using r by (cases r) (auto simp: reader_leaves_def split: if_splits)
    moreover have "sender_task_valid (conn s') = sender_task_valid (conn s)"
      by (rule step_Recv_preserves [OF _ _ r]) simp_all
    moreover have "(close_cb_calls (conn s') = n) = (close_cb_calls (conn s) = n)" for n
      by (rule step_Recv_preserves [OF _ _ r]) simp_all
    ultimately show ?thesis by simp
  next
    case 4
    with assms(1) show ?thesis
      by (auto split: reader_pc.splits list.splits if_splits)
  next
    case 5
    with assms(1) show ?thesis
      by (auto split: reader_pc.splits list.splits)
  qed
qed

lemma control_inv_reader_step:
  assumes "control_inv s" and "step a s = Some s'"
    and "a = ReaderRuns \<or> a = ReaderDropped \<or> a = Recv r \<or> a = SinkCall \<or> a = ParseReturns"
  shows "control_inv s'"
proof -
  note R = reader_step [OF assms(2,3)]
  from assms(1) R have "writer s \<noteq> SecondPass" "writer s \<noteq> SenderDone"
    unfolding control_inv_def by blast+
  with assms(1) R show ?thesis
    unfolding control_inv_def by simp
qed

lemma control_inv_PopItem:
  assumes "control_inv s" and "pipeline_inv (conn s)"
    and "step (PopItem got sending) s = Some s'"
  shows "control_inv s'"
proof -
  from assms(3) obtain item c1 where pop: "Pop (conn s) = Some (item, c1)"
    and w: "writer s = FirstPass \<or> writer s = SecondPass"
    by (auto split: if_splits option.splits)
  from pop_never_aborts [OF assms(2) pop] obtain c2 where
    p: "process_item (\<lambda>_. got) (\<lambda>_. sending) item c1 = Inr c2"
    by (cases "process_item (\<lambda>_. got) (\<lambda>_. sending) item c1") auto
  with assms(3) pop w have s': "s' = s\<lparr>conn := c2\<rparr>"
    by (auto split: if_splits)
  from pop have c1: "sender_task_valid c1 = sender_task_valid (conn s)"
    "close_cb_calls c1 = close_cb_calls (conn s)"
    by (auto simp: Pop_def split: list.splits)
  note P = process_item_Inr(8,9) [OF p]
  from assms(1) w show ?thesis
    unfolding control_inv_def by (auto simp: s' P c1)
qed

lemma Pop_None: "(Pop c = None) = (request_tasks c = [])"
  by (simp add: Pop_def split: list.splits)

lemma control_inv_pass_ends:
  assumes "control_inv s" and "pass_ends s = Some s'"
  shows "control_inv s'"
proof -
  from assms(2) consider "writer s = FirstPass" | "writer s = SecondPass"
    by (auto simp: pass_ends_def split: writer_pc.splits)
  then show ?thesis
  proof cases
    case 1
    with assms(2) have "s' = s\<lparr>listener_cancel_requested := True, writer := SyncCancel\<rparr>"
      by (simp add: pass_ends_def)
    with assms(1) 1 show ?thesis unfolding control_inv_def by simp
  next
    case 2
    with assms(1) have valid: "sender_task_valid (conn s)" and calls: "close_cb_calls (conn s) = 0"
      and fin: "reader s = ReaderDone" and canc: "listener_cancel_requested s"
      unfolding control_inv_def by simp_all
    show ?thesis
    proof (cases "Shutdown (conn s)")
      case (Inl a)
      with valid have a: "a = RequestTasksEmpty" by (simp add: Shutdown_Inl)
      from assms(2) 2 Inl have "s' = s\<lparr>writer := Aborted a\<rparr>" by (simp add: pass_ends_def)
      with valid calls canc a show ?thesis unfolding control_inv_def by simp
    next
      case (Inr c')
      with assms(2) 2 have s': "s' = s\<lparr>conn := c', writer := SenderDone\<rparr>"
        by (simp add: pass_ends_def)
      from Shutdown_Inr [OF Inr] calls fin canc show ?thesis
        unfolding control_inv_def by (simp add: s')
    qed
  qed
qed

lemma control_inv_PopNothing:
  assumes "control_inv s" and "step PopNothing s = Some s'"
  shows "control_inv s'"
proof -
  from assms(2) have "pass_ends s = Some s'" by (auto split: if_splits)
  from control_inv_pass_ends [OF assms(1) this] show ?thesis .
qed

lemma control_inv_TurnThrows:
  assumes "control_inv s" and "step (TurnThrows p got sending) s = Some s'"
  shows "control_inv s'"
proof -
  from assms(2) obtain item c1 r c2 where pop: "Pop (conn s) = Some (item, c1)"
    and a: "abandoned_turn p got sending item c1 = Some (r, c2)"
    and e: "pass_ends (s\<lparr>conn := caught r c2\<rparr>) = Some s'"
    and w: "writer s = FirstPass \<or> writer s = SecondPass"
    by (auto split: if_splits option.splits)
  from pop have c1: "sender_task_valid c1 = sender_task_valid (conn s)"
    "close_cb_calls c1 = close_cb_calls (conn s)"
    by (auto simp: Pop_def split: list.splits)
  note A = abandoned_turn_Some [OF a]
  from assms(1) w have "control_inv (s\<lparr>conn := caught r c2\<rparr>)"
    unfolding control_inv_def by (auto simp: A c1)
  from control_inv_pass_ends [OF this e] show ?thesis .
qed

lemma step_control_inv:
  assumes "control_inv s" and "pipeline_inv (conn s)" and "step a s = Some s'"
  shows "control_inv s'"
proof (cases a)
  case (PopItem got sending)
  with assms show ?thesis by (simp add: control_inv_PopItem del: step.simps)
next
  case PopNothing
  with assms show ?thesis by (simp add: control_inv_PopNothing del: step.simps)
next
  case (TurnThrows p got sending)
  with assms show ?thesis by (simp add: control_inv_TurnThrows del: step.simps)
next
  case ListenerJoined
  with assms(1,3) show ?thesis
    unfolding control_inv_def by (auto split: if_splits)
next
  case StopCall
  with assms(1,3) show ?thesis
    unfolding control_inv_def by (auto simp: Stop_def)
qed (use assms(1,3) in \<open>blast intro: control_inv_reader_step\<close>)+

lemma run_inv:
  "run acts s = Some s' \<Longrightarrow> pipeline_inv (conn s) \<Longrightarrow> control_inv s \<Longrightarrow>
     pipeline_inv (conn s') \<and> control_inv s'"
proof (induction acts arbitrary: s)
  case Nil
  then show ?case by simp
next
  case (Cons a acts)
  from Cons.prems(1) obtain s1 where a: "step a s = Some s1" and rest: "run acts s1 = Some s'"
    by (auto split: option.splits)
  from step_pipeline_inv [OF Cons.prems(2) a] step_control_inv [OF Cons.prems(3,2) a]
  show ?case by (rule Cons.IH [OF rest])
qed

lemma started_inv:
  "pipeline_inv (conn (started cb launched cfg st))"
  "control_inv (started cb launched cfg st)"
  by (simp_all add: started_def Start_def Connection_def SetCloseCb_def pipeline_inv_def
        control_inv_def)

lemma reachable_inv:
  assumes "run acts (started cb launched cfg st) = Some s"
  shows "pipeline_inv (conn s)" and "control_inv s"
  using run_inv [OF assms started_inv] by simp_all

lemma pipeline_sorted_finished:
  assumes "pipeline_inv c"
  shows "sorted_wrt (<) (map req_id (finished c))"
proof -
  from assms have "sorted_wrt (<) (map req_id (finished c) @ map req_id (request_tasks c))"
    unfolding pipeline_inv_def by metis
  then show ?thesis by (simp add: sorted_wrt_append)
qed

lemma turn_served:
  assumes "\<not> sender_cancel_requested c" and "is_response_chain_valid c"
    and "peer_socket_valid c" and "\<not> is_sent r" and "throws (req_id r) = None"
    and "tasks (req_id r) = TaskDone" and "sends (req_id r) = Sent"
  shows "\<exists>c'. turn throws tasks sends r c = Done c'
           \<and> finished c' = finished c @ [r\<lparr>is_sent := True\<rparr>]
           \<and> request_tasks c' = request_tasks c
           \<and> \<not> sender_cancel_requested c' \<and> is_response_chain_valid c'
           \<and> peer_socket_valid c'"
  using assms
  by (simp add: turn_def process_item_def HandleQueueItem_def SendResponse_def send_path_def
        Let_def)

lemma process_loop_served:
  assumes "\<not> sender_cancel_requested c" and "is_response_chain_valid c"
    and "peer_socket_valid c"
    and "\<forall>r \<in> set items. \<not> is_sent r \<and> throws (req_id r) = None
           \<and> tasks (req_id r) = TaskDone \<and> sends (req_id r) = Sent"
    and "request_tasks c = items"
  shows "\<exists>cf. process_loop throws tasks sends items c = Inr cf
           \<and> finished cf = finished c @ map (\<lambda>r. r\<lparr>is_sent := True\<rparr>) items
           \<and> request_tasks cf = [] \<and> is_response_chain_valid cf"
  using assms
proof (induction items arbitrary: c)
  case Nil
  then show ?case by simp
next
  case (Cons r rest)
  let ?c1 = "c\<lparr>request_tasks := rest\<rparr>"
  from Cons.prems have r: "\<not> is_sent r" "throws (req_id r) = None"
    "tasks (req_id r) = TaskDone" "sends (req_id r) = Sent"
    by simp_all
  from Cons.prems(1-3) have c1: "\<not> sender_cancel_requested ?c1" "is_response_chain_valid ?c1"
    "peer_socket_valid ?c1"
    by simp_all
  from turn_served [of ?c1 r throws tasks sends, OF c1 r] obtain c' where
    t: "turn throws tasks sends r ?c1 = Done c'"
    and f: "finished c' = finished c @ [r\<lparr>is_sent := True\<rparr>]"
    and q: "request_tasks c' = rest"
    and k: "\<not> sender_cancel_requested c'" "is_response_chain_valid c'" "peer_socket_valid c'"
    by auto
  from Cons.prems(4) have "\<forall>r \<in> set rest. \<not> is_sent r \<and> throws (req_id r) = None
           \<and> tasks (req_id r) = TaskDone \<and> sends (req_id r) = Sent"
    by simp
  from Cons.IH [of c', OF k this q] obtain cf where
    "process_loop throws tasks sends rest c' = Inr cf"
    "finished cf = finished c' @ map (\<lambda>r. r\<lparr>is_sent := True\<rparr>) rest"
    "request_tasks cf = []" "is_response_chain_valid cf"
    by blast
  with t f show ?case by simp
qed

lemma step_no_abort:
  assumes "pipeline_inv (conn s)" and "control_inv s" and "\<forall>x. writer s \<noteq> Aborted x"
    and "\<not> is_throw a" and "step a s = Some s'"
  shows "\<forall>x. writer s' \<noteq> Aborted x"
proof (cases a)
  case (PopItem got sending)
  with assms(5) obtain item c1 where pop: "Pop (conn s) = Some (item, c1)"
    by (auto split: if_splits option.splits)
  from pop_never_aborts [OF assms(1) pop] obtain c2 where
    "process_item (\<lambda>_. got) (\<lambda>_. sending) item c1 = Inr c2"
    by (cases "process_item (\<lambda>_. got) (\<lambda>_. sending) item c1") auto
  with assms(3,5) PopItem pop show ?thesis by (auto split: if_splits)
next
  case PopNothing
  with assms(5) have empty: "request_tasks (conn s) = []" and e: "pass_ends s = Some s'"
    by (auto simp: Pop_None split: if_splits)
  show ?thesis
  proof (cases "writer s = SecondPass")
    case False
    with e show ?thesis by (auto simp: pass_ends_def split: writer_pc.splits)
  next
    case True
    with assms(2) have "sender_task_valid (conn s)" unfolding control_inv_def by simp
    with empty have "\<And>x. Shutdown (conn s) \<noteq> Inl x" by (simp add: Shutdown_Inl)
    then obtain c' where "Shutdown (conn s) = Inr c'"
      by (cases "Shutdown (conn s)") auto
    with e True show ?thesis by (auto simp: pass_ends_def)
  qed
next
  case (TurnThrows p got sending)
  with assms(4) show ?thesis by simp
next
  case ListenerJoined
  with assms(5) show ?thesis by (auto split: if_splits)
next
  case StopCall
  with assms(3,5) show ?thesis by auto
qed (use assms(3) reader_step [OF assms(5)] in \<open>simp_all\<close>)

lemma run_no_abort:
  "run acts s = Some s' \<Longrightarrow> \<forall>a \<in> set acts. \<not> is_throw a \<Longrightarrow>
   pipeline_inv (conn s) \<Longrightarrow> control_inv s \<Longrightarrow> \<forall>x. writer s \<noteq> Aborted x \<Longrightarrow>
     \<forall>x. writer s' \<noteq> Aborted x"
proof (induction acts arbitrary: s)
  case Nil
  then show ?case by simp
next
  case (Cons a acts)
  from Cons.prems(1) obtain s1 where a: "step a s = Some s1" and rest: "run acts s1 = Some s'"
    by (auto split: option.splits)
  from Cons.prems(2) have na: "\<not> is_throw a" and nr: "\<forall>a \<in> set acts. \<not> is_throw a"
    by simp_all
  from step_no_abort [OF Cons.prems(3,4,5) na a]
    step_pipeline_inv [OF Cons.prems(3) a] step_control_inv [OF Cons.prems(4,3) a]
  show ?case using Cons.IH [OF rest nr] by blast
qed

section \<open>Concrete runs\<close>

lemma run_schedule0: "run schedule0 (started True True config0 stats0) = Some drained0"
  by (simp add: schedule0_def drained0_def eval_defs)

lemma step_drained0: "step PopNothing drained0 = Some closed0"
  by (simp add: closed0_def drained0_def eval_defs)

lemma run_append: "run (as @ bs) s = (case run as s of None \<Rightarrow> None | Some s' \<Rightarrow> run bs s')"
  by (induction as arbitrary: s) (simp_all split: option.splits)

lemma run_closed0:
  "run (schedule0 @ [PopNothing]) (started True True config0 stats0) = Some closed0"
  by (simp add: run_append run_schedule0 step_drained0 del: step.simps)

lemma run_schedule1: "run schedule1 (started True True config0 stats0) = Some queued1"
  by (simp add: schedule1_def queued1_def eval_defs)

lemma listen_half_closed0:
  "ListenForRequests [Received [(False, True)] True, PeerClosed] True conn0
     = Some (Return, half_closed0)"
  by (simp add: half_closed0_def listen_defs)

lemma listen_final_seen0:
  "ListenForRequests [Received [(True, True)] True] True conn0 = Some (LoopEnd, final_seen0)"
  by (simp add: final_seen0_def listen_defs)

lemma listen_reset0:
  "ListenForRequests [ThrowIoSystemError connection_reset] True conn0
     = Some (CaughtIoSystemError connection_reset, reset0)"
  by (simp add: reset0_def listen_defs)

lemma listen_pipe0:
  "ListenForRequests [ThrowIoSystemError broken_pipe] True conn0
     = Some (CaughtIoSystemError broken_pipe, pipe0)"
  by (simp add: pipe0_def listen_defs)

section \<open>The claims\<close>

text \<open>
  Claim C1. Responses are sent to the peer in the order their requests were parsed. In
  every state a started connection reaches, whatever the two tasks and the collaborators
  did: the requests Push accepted are, in that order, the requests the sender has taken
  through SendResponse followed by the requests still queued (the sender pops in the
  order the listener pushed); the identities along that order increase, and an identity
  is the position of the request in the order of parsing; so the responses written to
  the socket, which are the finished requests with \<open>is_sent\<close>, are in the order of
  parsing as well.
\<close>

theorem responses_follow_request_order:
  assumes "run acts (started cb launched cfg st) = Some s"
  shows "map req_id (pushed (conn s))
           = map req_id (finished (conn s)) @ map req_id (request_tasks (conn s))
       \<and> sorted_wrt (<) (map req_id (pushed (conn s)))
       \<and> sorted_wrt (<) (map req_id (filter is_sent (finished (conn s))))"
proof -
  note inv = reachable_inv(1) [OF assms]
  from pipeline_sorted_finished [OF inv]
  have "sorted_wrt (\<lambda>x y. req_id x < req_id y) (filter is_sent (finished (conn s)))"
    by (simp add: sorted_wrt_map sorted_wrt_filter)
  then have "sorted_wrt (<) (map req_id (filter is_sent (finished (conn s))))"
    by (simp add: sorted_wrt_map)
  with inv show ?thesis unfolding pipeline_inv_def by blast
qed

text \<open>
  C1 on a run: three requests arrive in one buffer, the second is final; the first
  response is sent, Stop is called, and the second request is answered in the second
  pass.
\<close>

theorem responses_follow_request_order_witness:
  "run (schedule0 @ [PopNothing]) (started True True config0 stats0) = Some closed0
   \<and> map req_id (pushed (conn closed0)) = [0, 1]
   \<and> map req_id (finished (conn closed0)) = [0, 1]
   \<and> request_tasks (conn closed0) = []
   \<and> map req_id (filter is_sent (finished (conn closed0))) = [0]
   \<and> sorted_wrt (<) (map req_id (filter is_sent (finished (conn closed0))))"
  using responses_follow_request_order [OF run_closed0] run_closed0
  by (simp add: closed0_def drained0_def new_request_def)

text \<open>
  Claim C2 says that after SendResponse exactly one of \<open>is_sent\<close> and \<open>send_failed\<close>
  holds, also when the send throws an I/O error. The source calls SetSendFailed in the
  handler of std::exception and in the else branch, but not in the handler of
  IoSystemError. Evaluated: with the response chain valid and the socket open, a send
  that throws an I/O system error leaves the request exactly as it was, neither sent nor
  send-failed; and in a run where the send of the only request fails with EPIPE, that
  request leaves the pipeline with both flags false.
\<close>

theorem send_io_error_marks_nothing:
  "(\<exists>c'. SendResponse (SendIoSystemError e) (new_request n final) (Connection cfg st)
            = Inr (new_request n final, c'))
   \<and> \<not> is_sent (new_request n final) \<and> \<not> send_failed (new_request n final)
   \<and> map_option (finished \<circ> conn) (run io_error_schedule (started True True config0 stats0))
        = Some [new_request 0 False]"
  by (simp add: io_error_schedule_def listen_defs)

text \<open>
  Claim C3, amended. Whenever ListenForRequests returns: it left through the end of
  the loop exactly when \<open>is_accepting_requests\<close> is false afterwards (a final request,
  malformed input or a failed Push); the sender's cancellation flag is set afterwards
  exactly when it was set before or the body was left another way (peer closed,
  cancellation, I/O error, other exception) and the wait for the launched event
  succeeded; and RequestCancel was called once in that case and not at all otherwise.
  So the guard requests the cancellation on return and on every exception, and is
  released, requesting nothing, when the loop ends.
\<close>

theorem send_stopper_fires_unless_released:
  assumes "ListenForRequests answers launched c = Some (how, c')"
  shows "((how = LoopEnd) = (\<not> is_accepting_requests c'))
       \<and> sender_cancel_requested c'
           = (sender_cancel_requested c \<or> (how \<noteq> LoopEnd \<and> launched))
       \<and> length (filter ((=) RequestCancel) (trace c'))
           = length (filter ((=) RequestCancel) (trace c))
             + (if how \<noteq> LoopEnd \<and> launched then 1 else 0)"
proof -
  let ?c0 = "c\<lparr>max_length := requests_queue_size_threshold (config c)\<rparr>"
  from assms obtain c1 where loop: "listen_loop answers ?c0 = Some (how, c1)"
    and c': "c' = leave launched how c1"
    by (auto simp: ListenForRequests_def split: option.splits)
  from listen_loop_exit [OF loop] c' have 1: "(how = LoopEnd) = (\<not> is_accepting_requests c')"
    by simp
  from listen_loop_cancel [OF loop] c'
  have 2: "sender_cancel_requested c'
           = (sender_cancel_requested c \<or> (how \<noteq> LoopEnd \<and> launched))"
    by (simp add: leave_cancel)
  from listen_loop_cancel [OF loop] c'
  have 3: "length (filter ((=) RequestCancel) (trace c'))
           = length (filter ((=) RequestCancel) (trace c))
             + (if how \<noteq> LoopEnd \<and> launched then 1 else 0)"
    by (simp add: leave_RequestCancel)
  from 1 2 3 show ?thesis by blast
qed

text \<open>
  C3 on two inputs: the peer closes after one request (the guard fires), and a final
  request ends the loop (the guard is released).
\<close>

theorem send_stopper_fires_unless_released_witness:
  "ListenForRequests [Received [(False, True)] True, PeerClosed] True conn0
     = Some (Return, half_closed0)
   \<and> is_accepting_requests half_closed0 \<and> sender_cancel_requested half_closed0
   \<and> length (filter ((=) RequestCancel) (trace half_closed0)) = 1
   \<and> ListenForRequests [Received [(True, True)] True] True conn0 = Some (LoopEnd, final_seen0)
   \<and> \<not> is_accepting_requests final_seen0 \<and> \<not> sender_cancel_requested final_seen0
   \<and> length (filter ((=) RequestCancel) (trace final_seen0)) = 0"
  using send_stopper_fires_unless_released [OF listen_half_closed0]
    send_stopper_fires_unless_released [OF listen_final_seen0]
    listen_half_closed0 listen_final_seen0
  by (simp add: conn0_def Connection_def)

text \<open>
  Claim C3 as stated fails: after a final request, after malformed input and after a
  failed Push the reader leaves through \<^verbatim>\<open>send_stopper.Release()\<close>, and no
  cancellation of the sender is requested.
\<close>

theorem guard_released_on_graceful_stop:
  "map_option fst (ListenForRequests [Received [(True, True)] True] True conn0) = Some LoopEnd
   \<and> map_option (sender_cancel_requested \<circ> snd)
        (ListenForRequests [Received [(True, True)] True] True conn0) = Some False
   \<and> map_option fst (ListenForRequests [Received [] False] True conn0) = Some LoopEnd
   \<and> map_option (sender_cancel_requested \<circ> snd)
        (ListenForRequests [Received [] False] True conn0) = Some False
   \<and> map_option fst (ListenForRequests [Received [(False, False)] True] True conn0)
        = Some LoopEnd
   \<and> map_option (sender_cancel_requested \<circ> snd)
        (ListenForRequests [Received [(False, False)] True] True conn0) = Some False"
  by (simp add: listen_defs)

text \<open>
  Claim C4, amended. When \<^verbatim>\<open>RecvSome\<close> throws an I/O system error while the reader
  is accepting requests, ListenForRequests catches it and returns. Whenever it returns
  that way, the error was thrown by a receive, and the last thing the reader did was to
  log it: at warning level if the code is connection_reset, at error level otherwise
  (broken_pipe included).
\<close>

theorem recv_error_log_level:
  "(is_accepting_requests c \<longrightarrow>
      (\<exists>c'. ListenForRequests (ThrowIoSystemError e # rest) launched c
              = Some (CaughtIoSystemError e, c')))
   \<and> (ListenForRequests answers launched c = Some (CaughtIoSystemError e, c') \<longrightarrow>
        ThrowIoSystemError e \<in> set answers
        \<and> last (trace c') = LOG (if e = connection_reset then kWarning else kError))"
proof (intro conjI impI)
  assume "is_accepting_requests c"
  then show "\<exists>c'. ListenForRequests (ThrowIoSystemError e # rest) launched c
              = Some (CaughtIoSystemError e, c')"
    by (simp add: ListenForRequests_throws)
next
  assume r: "ListenForRequests answers launched c = Some (CaughtIoSystemError e, c')"
  then obtain c1 where loop: "listen_loop answers
      (c\<lparr>max_length := requests_queue_size_threshold (config c)\<rparr>)
        = Some (CaughtIoSystemError e, c1)"
    and c': "c' = leave launched (CaughtIoSystemError e) c1"
    by (auto simp: ListenForRequests_def split: option.splits)
  from loop show "ThrowIoSystemError e \<in> set answers" by (rule listen_loop_thrown)
  from c' show "last (trace c') = LOG (if e = connection_reset then kWarning else kError)"
    by (simp only: leave_io_error_last)
qed

text \<open>
  C4 on two inputs: a receive that fails with ECONNRESET is logged as a warning, one
  that fails with EPIPE as an error.
\<close>

theorem recv_error_log_level_witness:
  "is_accepting_requests conn0
   \<and> ListenForRequests [ThrowIoSystemError connection_reset] True conn0
       = Some (CaughtIoSystemError connection_reset, reset0)
   \<and> last (trace reset0) = LOG kWarning
   \<and> ListenForRequests [ThrowIoSystemError broken_pipe] True conn0
       = Some (CaughtIoSystemError broken_pipe, pipe0)
   \<and> last (trace pipe0) = LOG kError"
  using recv_error_log_level [of conn0 connection_reset "[]" True
          "[ThrowIoSystemError connection_reset]" reset0]
    recv_error_log_level [of conn0 broken_pipe "[]" True
          "[ThrowIoSystemError broken_pipe]" pipe0]
    listen_reset0 listen_pipe0
  by (simp add: conn0_def Connection_def connection_reset_def broken_pipe_def)

text \<open>
  Claim C4 as stated fails: a receive that throws broken_pipe is logged at error level,
  not at warning level.
\<close>

theorem recv_broken_pipe_logged_as_error:
  "map_option fst (ListenForRequests [ThrowIoSystemError broken_pipe] True conn0)
     = Some (CaughtIoSystemError broken_pipe)
   \<and> map_option (last \<circ> trace \<circ> snd)
        (ListenForRequests [ThrowIoSystemError broken_pipe] True conn0) = Some (LOG kError)"
  by (simp add: listen_defs)

text \<open>
  Claim C5. NewRequest on a connection that no longer accepts requests returns true and
  changes nothing, so the request is not enqueued. On an accepting connection a final
  request switches \<open>is_accepting_requests\<close> off and is still handed to Push (and is the
  new back of the queue when Push accepts it). Hence, for any buffer, what is queued and
  what was pushed after the whole buffer is what was queued and pushed up to and
  including the first final request of it.
\<close>

theorem final_request_closes_intake:
  "(\<not> is_accepting_requests c \<longrightarrow> NewRequest r accepted c = (True, c))
   \<and> (is_accepting_requests c \<and> is_final r \<longrightarrow>
        \<not> is_accepting_requests (snd (NewRequest r accepted c))
        \<and> request_tasks (snd (NewRequest r True c)) = request_tasks c @ [r])
   \<and> request_tasks (Parse (rs @ (True, accepted) # rs') c)
        = request_tasks (Parse (rs @ [(True, accepted)]) c)
   \<and> pushed (Parse (rs @ (True, accepted) # rs') c)
        = pushed (Parse (rs @ [(True, accepted)]) c)"
proof -
  have stop: "\<not> is_accepting_requests (Parse (rs @ [(True, accepted)]) c)"
    by (simp add: Parse_append sink_final_stops)
  have split: "Parse (rs @ (True, accepted) # rs') c
                 = Parse rs' (Parse (rs @ [(True, accepted)]) c)"
    by (simp add: Parse_append)
  from Parse_not_accepting [OF stop, of rs']
  have "request_tasks (Parse (rs @ (True, accepted) # rs') c)
          = request_tasks (Parse (rs @ [(True, accepted)]) c)"
    and "pushed (Parse (rs @ (True, accepted) # rs') c)
          = pushed (Parse (rs @ [(True, accepted)]) c)"
    by (simp_all only: split)
  then show ?thesis
    using NewRequest_not_accepting [of c r accepted] NewRequest_final [of c r accepted]
    by blast
qed

text \<open>
  C5 on a buffer of four requests whose second is final: the first two are queued, the
  last two are not.
\<close>

theorem final_request_closes_intake_witness:
  "is_accepting_requests conn0 \<and> is_final (new_request 0 True)
   \<and> \<not> is_accepting_requests (snd (NewRequest (new_request 0 True) True conn0))
   \<and> request_tasks (snd (NewRequest (new_request 0 True) True conn0)) = [new_request 0 True]
   \<and> \<not> is_accepting_requests stopped0
   \<and> NewRequest (new_request 1 False) True stopped0 = (True, stopped0)
   \<and> map req_id (request_tasks
         (Parse ([(False, True)] @ (True, True) # [(False, True), (True, True)]) conn0)) = [0, 1]
   \<and> request_tasks (Parse ([(False, True)] @ (True, True) # [(False, True), (True, True)]) conn0)
        = request_tasks (Parse ([(False, True)] @ [(True, True)]) conn0)"
  using final_request_closes_intake [of conn0 "new_request 0 True" True "[(False, True)]"
          "[(False, True), (True, True)]"]
    final_request_closes_intake [of stopped0 "new_request 1 False" True "[]" "[]"]
  by (simp add: stopped0_def listen_defs)

text \<open>
  Claim C6 says that every increment of \<open>active_request_count\<close> by NewRequest is
  matched by one decrement in SendResponse, also when Push fails. Evaluated: when Push
  refuses the item, NewRequest has incremented the counter and queued nothing, so no
  SendResponse ever runs for that request; a connection whose only request was refused
  shuts down with the counter one above where it began.
\<close>

theorem push_failure_leaks_active_request_count:
  "fst (NewRequest (new_request n final) False (Connection cfg st)) = False
   \<and> request_tasks (snd (NewRequest (new_request n final) False (Connection cfg st))) = []
   \<and> active_request_count (stats (snd (NewRequest (new_request n final) False
         (Connection cfg st)))) = active_request_count st + 1
   \<and> map_option writer (run leak_schedule (started True True config0 stats0))
        = Some SenderDone
   \<and> map_option (finished \<circ> conn) (run leak_schedule (started True True config0 stats0))
        = Some []
   \<and> map_option (active_request_count \<circ> stats \<circ> conn)
        (run leak_schedule (started True True config0 stats0)) = Some 1"
  by (simp add: leak_schedule_def listen_defs)

text \<open>
  Claim C7. When the sender is not cancelled and awaiting the handler task of the front
  request throws an exception other than task-cancelled or wait-interrupted (and no call
  of the turn throws past SendResponse), HandleQueueItem marks the request as an
  internal server error, logs a warning and leaves \<open>is_response_chain_valid\<close> alone;
  the turn goes on to SendResponse and completes: the response is sent exactly when the
  chain is valid, the socket open and the send succeeds, and marked send-failed exactly
  when the chain is broken, the socket gone or the send throws another exception; the
  chain flag, the socket and the cancellation flag are as they were, and
  ProcessResponses carries on with the rest of the queue from that state. In
  particular, when the chain is valid, the socket open, and the handlers of the
  requests queued behind return and their sends succeed, ProcessResponses returns with
  the queue empty, the chain still valid, and every one of those requests sent, in
  order, after the one marked as an internal server error.
\<close>

theorem handler_crash_answers_500:
  assumes "\<not> sender_cancel_requested c" and "\<not> is_sent item"
    and "tasks (req_id item) = TaskStdException" and "throws (req_id item) = None"
    and "request_tasks c = item # rest"
  shows "HandleQueueItem TaskStdException item c
           = (item\<lparr>internal_server_error := True\<rparr>, emit (LOG kWarning) c)
       \<and> (\<exists>c' r'. turn throws tasks sends item (c\<lparr>request_tasks := rest\<rparr>) = Done c'
             \<and> finished c' = finished c @ [r'] \<and> req_id r' = req_id item
             \<and> internal_server_error r'
             \<and> is_sent r' = (is_response_chain_valid c \<and> peer_socket_valid c
                              \<and> sends (req_id item) = Sent)
             \<and> send_failed r' = (send_failed item
                                  \<or> \<not> (is_response_chain_valid c \<and> peer_socket_valid c)
                                  \<or> sends (req_id item) = SendStdException)
             \<and> is_response_chain_valid c' = is_response_chain_valid c
             \<and> peer_socket_valid c' = peer_socket_valid c
             \<and> sender_cancel_requested c' = sender_cancel_requested c
             \<and> request_tasks c' = rest
             \<and> ProcessResponses throws tasks sends c = ProcessResponses throws tasks sends c'
             \<and> (is_response_chain_valid c \<and> peer_socket_valid c
                  \<and> (\<forall>r \<in> set rest. \<not> is_sent r \<and> throws (req_id r) = None
                        \<and> tasks (req_id r) = TaskDone \<and> sends (req_id r) = Sent)
                 \<longrightarrow> (\<exists>cf. ProcessResponses throws tasks sends c = Inr cf
                        \<and> finished cf
                            = finished c @ r' # map (\<lambda>r. r\<lparr>is_sent := True\<rparr>) rest
                        \<and> request_tasks cf = [] \<and> is_response_chain_valid cf)))"
proof -
  let ?c1 = "c\<lparr>request_tasks := rest\<rparr>"
  let ?r1 = "item\<lparr>internal_server_error := True\<rparr>"
  from assms(1) have h: "HandleQueueItem TaskStdException item ?c1 = (?r1, emit (LOG kWarning) ?c1)"
    by (simp add: HandleQueueItem_crash)
  from assms(2) have "\<And>a. SendResponse (sends (req_id item)) ?r1 (emit (LOG kWarning) ?c1) \<noteq> Inl a"
    by (simp add: SendResponse_Inl)
  then obtain r2 c3 where
    s: "SendResponse (sends (req_id item)) ?r1 (emit (LOG kWarning) ?c1) = Inr (r2, c3)"
    by (cases "SendResponse (sends (req_id item)) ?r1 (emit (LOG kWarning) ?c1)") auto
  let ?c' = "c3\<lparr>finished := finished c3 @ [r2]\<rparr>"
  have p: "process_item tasks sends item ?c1 = Inr ?c'"
    by (simp add: process_item_def assms(3) h s)
  then have t: "turn throws tasks sends item ?c1 = Done ?c'"
    by (simp add: turn_def assms(4))
  note S = SendResponse_Inr [OF s] SendResponse_flags [OF s]
  from assms(5) have pop: "Pop c = Some (item, ?c1)" by (simp add: Pop_def)
  have loop: "ProcessResponses throws tasks sends c = ProcessResponses throws tasks sends ?c'"
    by (subst ProcessResponses_Pop) (simp add: pop t)
  have props: "finished ?c' = finished c @ [r2] \<and> req_id r2 = req_id item
        \<and> internal_server_error r2
        \<and> is_sent r2 = (is_response_chain_valid c \<and> peer_socket_valid c
                          \<and> sends (req_id item) = Sent)
        \<and> send_failed r2 = (send_failed item
                              \<or> \<not> (is_response_chain_valid c \<and> peer_socket_valid c)
                              \<or> sends (req_id item) = SendStdException)
        \<and> is_response_chain_valid ?c' = is_response_chain_valid c
        \<and> peer_socket_valid ?c' = peer_socket_valid c
        \<and> sender_cancel_requested ?c' = sender_cancel_requested c
        \<and> request_tasks ?c' = rest"
    using S by simp
  have served: "\<exists>cf. ProcessResponses throws tasks sends c = Inr cf
                        \<and> finished cf
                            = finished c @ r2 # map (\<lambda>r. r\<lparr>is_sent := True\<rparr>) rest
                        \<and> request_tasks cf = [] \<and> is_response_chain_valid cf"
    if ok: "is_response_chain_valid c \<and> peer_socket_valid c
            \<and> (\<forall>r \<in> set rest. \<not> is_sent r \<and> throws (req_id r) = None
                  \<and> tasks (req_id r) = TaskDone \<and> sends (req_id r) = Sent)"
  proof -
    from props assms(1) ok have k: "\<not> sender_cancel_requested ?c'" "is_response_chain_valid ?c'"
      "peer_socket_valid ?c'"
      by simp_all
    from ok have all: "\<forall>r \<in> set rest. \<not> is_sent r \<and> throws (req_id r) = None
                  \<and> tasks (req_id r) = TaskDone \<and> sends (req_id r) = Sent"
      by simp
    from props have q: "request_tasks ?c' = rest" by simp
    from process_loop_served [of ?c' rest throws tasks sends, OF k all q] obtain cf where
      "process_loop throws tasks sends rest ?c' = Inr cf"
      "finished cf = finished ?c' @ map (\<lambda>r. r\<lparr>is_sent := True\<rparr>) rest"
      "request_tasks cf = []" "is_response_chain_valid cf"
      by blast
    with props loop q show ?thesis
      by (simp add: ProcessResponses_def)
  qed
  from t props loop served
  have "\<exists>c' r'. turn throws tasks sends item ?c1 = Done c'
             \<and> finished c' = finished c @ [r'] \<and> req_id r' = req_id item
             \<and> internal_server_error r'
             \<and> is_sent r' = (is_response_chain_valid c \<and> peer_socket_valid c
                              \<and> sends (req_id item) = Sent)
             \<and> send_failed r' = (send_failed item
                                  \<or> \<not> (is_response_chain_valid c \<and> peer_socket_valid c)
                                  \<or> sends (req_id item) = SendStdException)
             \<and> is_response_chain_valid c' = is_response_chain_valid c
             \<and> peer_socket_valid c' = peer_socket_valid c
             \<and> sender_cancel_requested c' = sender_cancel_requested c
             \<and> request_tasks c' = rest
             \<and> ProcessResponses throws tasks sends c = ProcessResponses throws tasks sends c'
             \<and> (is_response_chain_valid c \<and> peer_socket_valid c
                  \<and> (\<forall>r \<in> set rest. \<not> is_sent r \<and> throws (req_id r) = None
                        \<and> tasks (req_id r) = TaskDone \<and> sends (req_id r) = Sent)
                 \<longrightarrow> (\<exists>cf. ProcessResponses throws tasks sends c = Inr cf
                        \<and> finished cf
                            = finished c @ r' # map (\<lambda>r. r\<lparr>is_sent := True\<rparr>) rest
                        \<and> request_tasks cf = [] \<and> is_response_chain_valid cf))"
    by (intro exI [of _ ?c'] exI [of _ r2]) blast
  with assms(1) show ?thesis by (simp add: HandleQueueItem_crash)
qed

text \<open>
  C7 on two pipelined requests whose first handler throws: both responses are sent, the
  first marked as an internal server error, and the queue is empty afterwards.
\<close>

theorem handler_crash_answers_500_witness:
  "\<not> sender_cancel_requested pipelined0 \<and> \<not> is_sent (new_request 0 False)
   \<and> crash_first (req_id (new_request 0 False)) = TaskStdException
   \<and> never_throws (req_id (new_request 0 False)) = None
   \<and> request_tasks pipelined0 = [new_request 0 False, new_request 1 False]
   \<and> is_response_chain_valid pipelined0 \<and> peer_socket_valid pipelined0
   \<and> crash_first (req_id (new_request 1 False)) = TaskDone
   \<and> HandleQueueItem TaskStdException (new_request 0 False) pipelined0
        = ((new_request 0 False)\<lparr>internal_server_error := True\<rparr>,
           emit (LOG kWarning) pipelined0)
   \<and> map_sum id finished (ProcessResponses never_throws crash_first always_sent pipelined0)
        = Inr [(new_request 0 False)\<lparr>internal_server_error := True, is_sent := True\<rparr>,
               (new_request 1 False)\<lparr>is_sent := True\<rparr>]
   \<and> map_sum id request_tasks
        (ProcessResponses never_throws crash_first always_sent pipelined0) = Inr []"
  using handler_crash_answers_500 [where c = pipelined0 and item = "new_request 0 False"
          and tasks = crash_first and throws = never_throws
          and rest = "[new_request 1 False]" and sends = always_sent]
  by (simp add: pipelined0_def crash_first_def always_sent_def never_throws_def
        ProcessResponses_def listen_defs)



text \<open>
  Claim C9. In every state a started connection reaches, the sender has never failed
  the assertion of SendResponse; whatever Pop hands over next is not yet sent, and
  SendResponse on what HandleQueueItem returns for it passes the assertion; and no
  request has been through SendResponse twice.
\<close>

theorem send_response_precondition_holds:
  assumes "run acts (started cb launched cfg st) = Some s"
  shows "writer s \<noteq> Aborted ResponseNotSent
       \<and> (Pop (conn s) = Some (item, c1) \<longrightarrow>
            \<not> is_sent item
            \<and> SendResponse sending (fst (HandleQueueItem got item c1))
                 (snd (HandleQueueItem got item c1)) \<noteq> Inl ResponseNotSent)
       \<and> distinct (map req_id (finished (conn s)))"
proof -
  note inv = reachable_inv [OF assms]
  from inv(2) have 1: "writer s \<noteq> Aborted ResponseNotSent"
    unfolding control_inv_def by auto
  have 2: "\<not> is_sent item
       \<and> SendResponse sending (fst (HandleQueueItem got item c1))
            (snd (HandleQueueItem got item c1)) \<noteq> Inl ResponseNotSent"
    if pop: "Pop (conn s) = Some (item, c1)"
  proof -
    from pop have "item \<in> set (request_tasks (conn s))"
      by (auto simp: Pop_def split: list.splits)
    with inv(1) have "\<not> is_sent item" unfolding pipeline_inv_def by blast
    then show ?thesis by (simp add: SendResponse_Inl)
  qed
  from pipeline_sorted_finished [OF inv(1)] have 3: "distinct (map req_id (finished (conn s)))"
    by (simp add: strict_sorted_iff)
  from 1 2 3 show ?thesis by blast
qed

text \<open>
  C9 at a state with one request queued.
\<close>

theorem send_response_precondition_holds_witness:
  "run schedule1 (started True True config0 stats0) = Some queued1
   \<and> writer queued1 \<noteq> Aborted ResponseNotSent
   \<and> Pop (conn queued1) = Some (new_request 0 False, (conn queued1)\<lparr>request_tasks := []\<rparr>)
   \<and> \<not> is_sent (new_request 0 False)
   \<and> SendResponse Sent
         (fst (HandleQueueItem TaskDone (new_request 0 False)
                 ((conn queued1)\<lparr>request_tasks := []\<rparr>)))
         (snd (HandleQueueItem TaskDone (new_request 0 False)
                 ((conn queued1)\<lparr>request_tasks := []\<rparr>))) \<noteq> Inl ResponseNotSent
   \<and> distinct (map req_id (finished (conn queued1)))"
  using send_response_precondition_holds [OF run_schedule1,
          of "new_request 0 False" "(conn queued1)\<lparr>request_tasks := []\<rparr>" Sent TaskDone]
    run_schedule1
  by (simp add: queued1_def Pop_def)

text \<open>
  Claim C10 says that the second ProcessResponses takes every request the listener
  pushed through HandleQueueItem and SendResponse before Shutdown is called; the
  assertion of Shutdown checks the same. Evaluated: when a turn throws, ProcessResponses
  returns through its handler with the rest of the queue untouched (here request 1 of
  two); and in a run where WriteAccessLogs throws in the second pass, the sender calls
  Shutdown with request 2 of three still queued and fails that assertion.
\<close>

theorem throwing_turn_leaves_requests_queued:
  "map_sum id (map req_id \<circ> request_tasks)
     (ProcessResponses first_throws always_done always_sent pipelined0) = Inr [1]
   \<and> map_option writer (run throw_schedule (started True True config0 stats0))
        = Some (Aborted RequestTasksEmpty)
   \<and> map_option (map req_id \<circ> pushed \<circ> conn)
        (run throw_schedule (started True True config0 stats0)) = Some [0, 1, 2]
   \<and> map_option (map req_id \<circ> finished \<circ> conn)
        (run throw_schedule (started True True config0 stats0)) = Some [0, 1]
   \<and> map_option (map req_id \<circ> request_tasks \<circ> conn)
        (run throw_schedule (started True True config0 stats0)) = Some [2]"
  by (simp add: throw_schedule_def pipelined0_def first_throws_def always_done_def
        always_sent_def ProcessResponses_def listen_defs)

text \<open>
  What holds when no turn of the sender's loop throws. The second ProcessResponses runs
  only after the listener has been cancelled and has finished; when Pop finds nothing in
  that pass, every request the listener pushed has been taken through HandleQueueItem
  and SendResponse, and Shutdown goes through; after Shutdown the queue is empty; and no
  assertion of the sender has failed.
\<close>

theorem second_pass_drains_unless_a_turn_throws:
  assumes "run acts (started cb launched cfg st) = Some s"
    and "\<forall>a \<in> set acts. \<not> is_throw a"
  shows "(writer s = SecondPass \<or> writer s = SenderDone \<longrightarrow>
            reader s = ReaderDone \<and> listener_cancel_requested s)
       \<and> (writer s = SecondPass \<and> Pop (conn s) = None \<longrightarrow>
            map req_id (finished (conn s)) = map req_id (pushed (conn s))
            \<and> (\<exists>s'. step PopNothing s = Some s' \<and> writer s' = SenderDone))
       \<and> (writer s = SenderDone \<longrightarrow>
            request_tasks (conn s) = []
            \<and> map req_id (finished (conn s)) = map req_id (pushed (conn s)))
       \<and> (\<forall>x. writer s \<noteq> Aborted x)"
proof -
  note inv = reachable_inv [OF assms(1)]
  from inv(1) have fifo: "map req_id (pushed (conn s))
      = map req_id (finished (conn s)) @ map req_id (request_tasks (conn s))"
    unfolding pipeline_inv_def by blast
  from inv(2) have 1: "writer s = SecondPass \<or> writer s = SenderDone \<longrightarrow>
            reader s = ReaderDone \<and> listener_cancel_requested s"
    unfolding control_inv_def by auto
  have 2: "map req_id (finished (conn s)) = map req_id (pushed (conn s))
            \<and> (\<exists>s'. step PopNothing s = Some s' \<and> writer s' = SenderDone)"
    if w: "writer s = SecondPass" and e: "Pop (conn s) = None"
  proof -
    from e have empty: "request_tasks (conn s) = []" by (simp add: Pop_None)
    from inv(2) w have "sender_task_valid (conn s)" unfolding control_inv_def by simp
    with empty have "\<And>x. Shutdown (conn s) \<noteq> Inl x" by (simp add: Shutdown_Inl)
    then obtain c' where "Shutdown (conn s) = Inr c'"
      by (cases "Shutdown (conn s)") auto
    with w e have "step PopNothing s = Some (s\<lparr>conn := c', writer := SenderDone\<rparr>)"
      by (simp add: pass_ends_def)
    with fifo empty show ?thesis by simp
  qed
  from inv(2) fifo have 3: "writer s = SenderDone \<longrightarrow>
            request_tasks (conn s) = []
            \<and> map req_id (finished (conn s)) = map req_id (pushed (conn s))"
    unfolding control_inv_def by simp
  have "\<forall>x. writer (started cb launched cfg st) \<noteq> Aborted x"
    by (simp add: started_def Start_def)
  from run_no_abort [OF assms(1,2) started_inv this]
  have 4: "\<forall>x. writer s \<noteq> Aborted x" .
  from 1 2 3 4 show ?thesis by blast
qed

text \<open>
  The same on the run of C1: the state in which the second pass finds the queue empty,
  and the state after Shutdown.
\<close>

theorem second_pass_drains_unless_a_turn_throws_witness:
  "run schedule0 (started True True config0 stats0) = Some drained0
   \<and> list_all (Not \<circ> is_throw) schedule0
   \<and> run (schedule0 @ [PopNothing]) (started True True config0 stats0) = Some closed0
   \<and> list_all (Not \<circ> is_throw) (schedule0 @ [PopNothing])
   \<and> writer drained0 = SecondPass \<and> Pop (conn drained0) = None
   \<and> reader drained0 = ReaderDone \<and> listener_cancel_requested drained0
   \<and> map req_id (finished (conn drained0)) = map req_id (pushed (conn drained0))
   \<and> map req_id (pushed (conn drained0)) = [0, 1]
   \<and> step PopNothing drained0 = Some closed0
   \<and> writer closed0 = SenderDone \<and> request_tasks (conn closed0) = []
   \<and> map req_id (finished (conn closed0)) = map req_id (pushed (conn closed0))"
  using second_pass_drains_unless_a_turn_throws [OF run_schedule0]
    second_pass_drains_unless_a_turn_throws [OF run_closed0]
    run_schedule0 run_closed0 step_drained0
  by (simp add: closed0_def drained0_def new_request_def Pop_def schedule0_def list_all_iff
        del: step.simps)

end
